theory Spec2Isabelle
  imports Main "HOL-Library.AList"
begin

section \<open>Python values, errors and containers\<close>

text \<open>
  The engine of \<^verbatim>\<open>cspbase.py\<close> stores arbitrary Python objects as domain values and
  uses \<^verbatim>\<open>None\<close> as the marker of an unassigned variable
  (\<^verbatim>\<open>is_assigned\<close> is \<^verbatim>\<open>self.assignedValue != None\<close>). A value is therefore
  either \<^verbatim>\<open>None\<close> or some other object.
\<close>

datatype 'a pyval = PNone | PVal 'a

text \<open>
  The exceptions the code can raise. It has no \<^verbatim>\<open>raise\<close> statement of its own and
  defines no exception class: what it raises are the exceptions of the Python operations
  it uses.
  \<^item> \<open>ValueError\<close>: \<^verbatim>\<open>self.dom.index(value)\<close> in \<^verbatim>\<open>value_index\<close>, for a value that is
    not in the list;
  \<^item> \<open>IndexError\<close>: a list or tuple read or written out of range;
  \<^item> \<open>KeyError\<close>: a dictionary read at a missing key.
\<close>

datatype error = ValueError | IndexError | KeyError

text \<open>
  Where a method refuses its argument it calls \<^verbatim>\<open>print\<close> and returns \<^verbatim>\<open>None\<close>, as a
  call that did its work returns \<^verbatim>\<open>None\<close>. The messages:
  \<^item> \<open>AssignError\<close>: \<^verbatim>\<open>"ERROR: trying to assign variable ... that is already assigned
    or illegal value (not in curdom)"\<close>;
  \<^item> \<open>UnassignError\<close>: \<^verbatim>\<open>"ERROR: trying to unassign variable ... not yet assigned"\<close>;
  \<^item> \<open>NonVariable\<close>: \<^verbatim>\<open>"Trying to add non variable ... to CSP object"\<close>;
  \<^item> \<open>DuplicateVariable\<close>: \<^verbatim>\<open>"Trying to add variable ... to CSP object that already
    has it"\<close>;
  \<^item> \<open>NonConstraint\<close>: \<^verbatim>\<open>"Trying to add non constraint ... to CSP object"\<close>;
  \<^item> \<open>UnknownVariables\<close>: \<^verbatim>\<open>"Trying to add constraint ... with unknown variables to
    CSP object"\<close>.
\<close>

datatype message =
    AssignError | UnassignError
  | NonVariable | DuplicateVariable | NonConstraint | UnknownVariables

text \<open>
  How a call of a method ends: it returns having printed nothing (\<open>Done\<close>), it prints
  a message and returns (\<open>Printed\<close>), or an exception leaves it (\<open>Raised\<close>). A method
  that mutates its object returns the object as the call leaves it together with this
  outcome; a query returns the exception or its value.
\<close>

datatype outcome = Done | Printed message | Raised error

definition raises :: "outcome \<Rightarrow> bool" where
  "raises out = (case out of Raised e \<Rightarrow> True | Done \<Rightarrow> False | Printed m \<Rightarrow> False)"

text \<open>\<^verbatim>\<open>xs[i]\<close> and \<^verbatim>\<open>xs[i] = v\<close> for a non-negative index.\<close>

definition py_getitem :: "'b list \<Rightarrow> nat \<Rightarrow> error + 'b" where
  "py_getitem xs i = (if i < length xs then Inr (xs ! i) else Inl IndexError)"

definition py_setitem :: "'b list \<Rightarrow> nat \<Rightarrow> 'b \<Rightarrow> error + 'b list" where
  "py_setitem xs i v = (if i < length xs then Inr (xs[i := v]) else Inl IndexError)"

text \<open>\<^verbatim>\<open>xs.index(v)\<close>: the first position holding \<open>v\<close>.\<close>

definition py_index :: "'b list \<Rightarrow> 'b \<Rightarrow> error + nat" where
  "py_index xs v =
     (if v \<in> set xs then Inr (length (takeWhile (\<lambda>y. y \<noteq> v) xs)) else Inl ValueError)"

text \<open>
  A \<^verbatim>\<open>dict\<close> is an association list in insertion order with one pair per key:
  \<open>map_of\<close> reads it and \<open>AList.update\<close> writes it (in place for a key that is
  present, at the end for a new one).
\<close>

type_synonym ('k, 'v) dict = "('k \<times> 'v) list"

definition dict_has :: "('k, 'v) dict \<Rightarrow> 'k \<Rightarrow> bool" where
  "dict_has d k = (map_of d k \<noteq> None)"

definition dict_get :: "('k, 'v) dict \<Rightarrow> 'k \<Rightarrow> error + 'v" where
  "dict_get d k = (case map_of d k of None \<Rightarrow> Inl KeyError | Some v \<Rightarrow> Inr v)"

section \<open>Variable\<close>

text \<open>
  The fields of the class, with \<open>var_name\<close> for \<^verbatim>\<open>self.name\<close> and \<open>dom_vals\<close> for
  \<^verbatim>\<open>self.dom\<close>. The permanent domain and the mask are two lists, as in the source; that
  they have the same length is a property of the reachable states (\<open>var_ok\<close> below),
  and a method run on any other state raises where Python would.
\<close>

record 'a variable =
  var_name :: string
  dom_vals :: "'a pyval list"
  curdom :: "bool list"
  assignedValue :: "'a pyval"

definition Variable_init :: "string \<Rightarrow> 'a pyval list \<Rightarrow> 'a variable" where
  "Variable_init nm domain =
     \<lparr>var_name = nm, dom_vals = domain, curdom = replicate (length domain) True, assignedValue = PNone\<rparr>"

fun add_domain_values :: "'a variable \<Rightarrow> 'a pyval list \<Rightarrow> 'a variable" where
  "add_domain_values x [] = x"
| "add_domain_values x (val # values) =
     add_domain_values (x\<lparr>dom_vals := dom_vals x @ [val], curdom := curdom x @ [True]\<rparr>) values"

definition domain_size :: "'a variable \<Rightarrow> nat" where
  "domain_size x = length (dom_vals x)"

definition is_assigned :: "'a variable \<Rightarrow> bool" where
  "is_assigned x = (assignedValue x \<noteq> PNone)"

definition get_assigned_value :: "'a variable \<Rightarrow> 'a pyval" where
  "get_assigned_value x = assignedValue x"

definition value_index :: "'a variable \<Rightarrow> 'a pyval \<Rightarrow> error + nat" where
  "value_index x v = py_index (dom_vals x) v"

definition prune_value :: "'a variable \<Rightarrow> 'a pyval \<Rightarrow> 'a variable \<times> outcome" where
  "prune_value x v =
     (case value_index x v of
        Inl e \<Rightarrow> (x, Raised e)
      | Inr i \<Rightarrow>
          (case py_setitem (curdom x) i False of
             Inl e \<Rightarrow> (x, Raised e)
           | Inr cd \<Rightarrow> (x\<lparr>curdom := cd\<rparr>, Done)))"

definition unprune_value :: "'a variable \<Rightarrow> 'a pyval \<Rightarrow> 'a variable \<times> outcome" where
  "unprune_value x v =
     (case value_index x v of
        Inl e \<Rightarrow> (x, Raised e)
      | Inr i \<Rightarrow>
          (case py_setitem (curdom x) i True of
             Inl e \<Rightarrow> (x, Raised e)
           | Inr cd \<Rightarrow> (x\<lparr>curdom := cd\<rparr>, Done)))"

text \<open>
  The loop of \<^verbatim>\<open>cur_domain\<close> over \<^verbatim>\<open>enumerate(self.dom)\<close>, with the list \<open>vals\<close>
  built so far.
\<close>

fun cur_domain_loop :: "bool list \<Rightarrow> (nat \<times> 'a pyval) list \<Rightarrow> 'a pyval list \<Rightarrow> error + 'a pyval list" where
  "cur_domain_loop cd [] vals = Inr vals"
| "cur_domain_loop cd ((i, val) # rest) vals =
     (case py_getitem cd i of
        Inl e \<Rightarrow> Inl e
      | Inr b \<Rightarrow> cur_domain_loop cd rest (if b then vals @ [val] else vals))"

definition cur_domain :: "'a variable \<Rightarrow> error + 'a pyval list" where
  "cur_domain x =
     (if is_assigned x then Inr [get_assigned_value x]
      else cur_domain_loop (curdom x) (enumerate 0 (dom_vals x)) [])"

definition in_cur_domain :: "'a variable \<Rightarrow> 'a pyval \<Rightarrow> error + bool" where
  "in_cur_domain x v =
     (if v \<notin> set (dom_vals x) then Inr False
      else if is_assigned x then Inr (v = get_assigned_value x)
      else (case value_index x v of
              Inl e \<Rightarrow> Inl e
            | Inr i \<Rightarrow> py_getitem (curdom x) i))"

definition cur_domain_size :: "'a variable \<Rightarrow> nat" where
  "cur_domain_size x = (if is_assigned x then 1 else length (filter (\<lambda>b. b) (curdom x)))"

definition restore_curdom :: "'a variable \<Rightarrow> 'a variable" where
  "restore_curdom x =
     x\<lparr>curdom := foldl (\<lambda>cd i. cd[i := True]) (curdom x) [0..<length (curdom x)]\<rparr>"

definition assign :: "'a variable \<Rightarrow> 'a pyval \<Rightarrow> 'a variable \<times> outcome" where
  "assign x v =
     (if is_assigned x then (x, Printed AssignError)
      else (case in_cur_domain x v of
              Inl e \<Rightarrow> (x, Raised e)
            | Inr b \<Rightarrow>
                if \<not> b then (x, Printed AssignError)
                else (x\<lparr>assignedValue := v\<rparr>, Done)))"

definition unassign :: "'a variable \<Rightarrow> 'a variable \<times> outcome" where
  "unassign x =
     (if \<not> is_assigned x then (x, Printed UnassignError)
      else (x\<lparr>assignedValue := PNone\<rparr>, Done))"

text \<open>
  The state that every sequence of the methods above keeps: one mask entry per domain
  value, and an assigned value taken from the domain.
\<close>

definition var_ok :: "'a variable \<Rightarrow> bool" where
  "var_ok x \<longleftrightarrow>
     length (curdom x) = length (dom_vals x) \<and>
     (assignedValue x = PNone \<or> assignedValue x \<in> set (dom_vals x))"

section \<open>Constraint\<close>

text \<open>
  Variables and constraints are objects compared by identity and shared between the
  constraints and the CSP that refer to them: a reference is a number, and the
  variables live in a store.
\<close>

type_synonym var_ref = nat
type_synonym con_ref = nat
type_synonym 'a var_heap = "var_ref \<Rightarrow> 'a variable"
type_synonym 'a tuple = "'a pyval list"

text \<open>
  The fields of the class, with \<open>con_name\<close> for \<^verbatim>\<open>self.name\<close>. The scope holds
  references; \<^verbatim>\<open>sat_tuples\<close> maps each stored tuple to \<^verbatim>\<open>True\<close>; \<^verbatim>\<open>sup_tuples\<close>
  maps a pair of a variable and a value to a list of tuples.
\<close>

record 'a constraint =
  con_name :: string
  scope :: "var_ref list"
  sat_tuples :: "('a tuple, bool) dict"
  sup_tuples :: "(var_ref \<times> 'a pyval, 'a tuple list) dict"

definition Constraint_init :: "string \<Rightarrow> var_ref list \<Rightarrow> 'a constraint" where
  "Constraint_init nm sc = \<lparr>con_name = nm, scope = sc, sat_tuples = [], sup_tuples = []\<rparr>"

text \<open>
  The three statements of the inner loop of \<^verbatim>\<open>add_satisfying_tuples\<close> for one
  position, once \<^verbatim>\<open>var = self.scope[i]\<close> has been read.
\<close>

definition sup_append :: "var_ref \<times> 'a pyval \<Rightarrow> 'a tuple \<Rightarrow>
    (var_ref \<times> 'a pyval, 'a tuple list) dict \<Rightarrow> (var_ref \<times> 'a pyval, 'a tuple list) dict" where
  "sup_append k t d =
     (let d1 = (if \<not> dict_has d k then AList.update k [] d else d)
      in case map_of d1 k of
           None \<Rightarrow> d1
         | Some l \<Rightarrow> AList.update k (l @ [t]) d1)"

fun add_support :: "var_ref list \<Rightarrow> 'a tuple \<Rightarrow> (nat \<times> 'a pyval) list \<Rightarrow>
    (var_ref \<times> 'a pyval, 'a tuple list) dict \<Rightarrow>
    (var_ref \<times> 'a pyval, 'a tuple list) dict \<times> outcome" where
  "add_support sc t [] d = (d, Done)"
| "add_support sc t ((i, val) # rest) d =
     (case py_getitem sc i of
        Inl e \<Rightarrow> (d, Raised e)
      | Inr var \<Rightarrow> add_support sc t rest (sup_append (var, val) t d))"

fun add_satisfying_tuples :: "'a constraint \<Rightarrow> 'a tuple list \<Rightarrow> 'a constraint \<times> outcome" where
  "add_satisfying_tuples c [] = (c, Done)"
| "add_satisfying_tuples c (t # tuples) =
     (let sat = (if \<not> dict_has (sat_tuples c) t then AList.update t True (sat_tuples c)
                 else sat_tuples c);
          r = add_support (scope c) t (enumerate 0 t) (sup_tuples c);
          c' = c\<lparr>sat_tuples := sat, sup_tuples := fst r\<rparr>
      in case snd r of
           Done \<Rightarrow> add_satisfying_tuples c' tuples
         | Printed m \<Rightarrow> (c', Printed m)
         | Raised e \<Rightarrow> (c', Raised e))"

text \<open>
  A sequence of calls on one constraint. A call that raised leaves the constraint as it
  was when the exception left the method, and the next call goes on from there.
\<close>

fun add_calls :: "'a constraint \<Rightarrow> 'a tuple list list \<Rightarrow> 'a constraint" where
  "add_calls c [] = c"
| "add_calls c (tuples # calls) = add_calls (fst (add_satisfying_tuples c tuples)) calls"

definition get_scope :: "'a constraint \<Rightarrow> var_ref list" where
  "get_scope c = scope c"

definition check :: "'a constraint \<Rightarrow> 'a tuple \<Rightarrow> bool" where
  "check c vals = dict_has (sat_tuples c) vals"

fun tuple_is_valid_loop :: "'a var_heap \<Rightarrow> 'a tuple \<Rightarrow> (nat \<times> var_ref) list \<Rightarrow> error + bool" where
  "tuple_is_valid_loop h t [] = Inr True"
| "tuple_is_valid_loop h t ((i, var) # rest) =
     (case py_getitem t i of
        Inl e \<Rightarrow> Inl e
      | Inr tv \<Rightarrow>
          (case in_cur_domain (h var) tv of
             Inl e \<Rightarrow> Inl e
           | Inr b \<Rightarrow> if \<not> b then Inr False else tuple_is_valid_loop h t rest))"

definition tuple_is_valid :: "'a var_heap \<Rightarrow> 'a constraint \<Rightarrow> 'a tuple \<Rightarrow> error + bool" where
  "tuple_is_valid h c t = tuple_is_valid_loop h t (enumerate 0 (scope c))"

fun has_support_loop :: "'a var_heap \<Rightarrow> 'a constraint \<Rightarrow> 'a tuple list \<Rightarrow> error + bool" where
  "has_support_loop h c [] = Inr False"
| "has_support_loop h c (t # ts) =
     (case tuple_is_valid h c t of
        Inl e \<Rightarrow> Inl e
      | Inr b \<Rightarrow> if b then Inr True else has_support_loop h c ts)"

definition has_support :: "'a var_heap \<Rightarrow> 'a constraint \<Rightarrow> var_ref \<Rightarrow> 'a pyval \<Rightarrow> error + bool" where
  "has_support h c var val =
     (if dict_has (sup_tuples c) (var, val) then
        (case dict_get (sup_tuples c) (var, val) of
           Inl e \<Rightarrow> Inl e
         | Inr ts \<Rightarrow> has_support_loop h c ts)
      else Inr False)"

section \<open>CSP\<close>

text \<open>What a caller may pass where a variable or a constraint is expected.\<close>

datatype pyobj = VariableObj var_ref | ConstraintObj con_ref | OtherObj

type_synonym 'a con_heap = "con_ref \<Rightarrow> 'a constraint"

text \<open>
  The fields of the class, with \<open>csp_name\<close> for \<^verbatim>\<open>self.name\<close>. The lists hold
  references, and \<^verbatim>\<open>add_constraint\<close> reads the scope of its argument in the store of
  the constraints.
\<close>

record csp =
  csp_name :: string
  vars :: "var_ref list"
  cons :: "con_ref list"
  vars_to_cons :: "(var_ref, con_ref list) dict"

definition add_var :: "csp \<Rightarrow> pyobj \<Rightarrow> csp \<times> outcome" where
  "add_var s obj =
     (case obj of
        VariableObj v \<Rightarrow>
          if dict_has (vars_to_cons s) v then (s, Printed DuplicateVariable)
          else (s\<lparr>vars := vars s @ [v], vars_to_cons := AList.update v [] (vars_to_cons s)\<rparr>, Done)
      | _ \<Rightarrow> (s, Printed NonVariable))"

definition CSP_init :: "string \<Rightarrow> pyobj list \<Rightarrow> csp" where
  "CSP_init nm vs =
     foldl (\<lambda>s v. fst (add_var s v)) \<lparr>csp_name = nm, vars = [], cons = [], vars_to_cons = []\<rparr> vs"

text \<open>
  The loop of \<^verbatim>\<open>add_constraint\<close> over \<^verbatim>\<open>c.scope\<close>, on the dictionary
  \<^verbatim>\<open>vars_to_cons\<close>.
\<close>

fun index_scope :: "con_ref \<Rightarrow> var_ref list \<Rightarrow> (var_ref, con_ref list) dict \<Rightarrow>
    (var_ref, con_ref list) dict \<times> outcome" where
  "index_scope c [] d = (d, Done)"
| "index_scope c (v # vs) d =
     (case map_of d v of
        None \<Rightarrow> (d, Printed UnknownVariables)
      | Some l \<Rightarrow> index_scope c vs (AList.update v (l @ [c]) d))"

definition add_constraint :: "'a con_heap \<Rightarrow> csp \<Rightarrow> pyobj \<Rightarrow> csp \<times> outcome" where
  "add_constraint ch s obj =
     (case obj of
        ConstraintObj c \<Rightarrow>
          (let r = index_scope c (scope (ch c)) (vars_to_cons s)
           in case snd r of
                Done \<Rightarrow> (s\<lparr>vars_to_cons := fst r, cons := cons s @ [c]\<rparr>, Done)
              | Printed m \<Rightarrow> (s\<lparr>vars_to_cons := fst r\<rparr>, Printed m)
              | Raised e \<Rightarrow> (s\<lparr>vars_to_cons := fst r\<rparr>, Raised e))
      | _ \<Rightarrow> (s, Printed NonConstraint))"

definition get_all_cons :: "csp \<Rightarrow> con_ref list" where
  "get_all_cons s = cons s"

definition get_cons_with_var :: "csp \<Rightarrow> var_ref \<Rightarrow> error + con_ref list" where
  "get_cons_with_var s var = dict_get (vars_to_cons s) var"

definition get_all_vars :: "csp \<Rightarrow> var_ref list" where
  "get_all_vars s = vars s"

section \<open>Notions used in the statements\<close>

text \<open>
  The list a dictionary of lists holds under a key, empty for a missing key, and the
  tuples that are the keys of the satisfying-tuple table.
\<close>

definition entry :: "('k, 'v list) dict \<Rightarrow> 'k \<Rightarrow> 'v list" where
  "entry d k = (case map_of d k of None \<Rightarrow> [] | Some l \<Rightarrow> l)"

definition stored_tuples :: "'a constraint \<Rightarrow> 'a tuple list" where
  "stored_tuples c = map fst (sat_tuples c)"

text \<open>
  The brute-force reading of support, in the words of the specification: a value is in
  the current domain of a variable when it is a member of the list \<^verbatim>\<open>cur_domain()\<close>; a
  tuple is supported when every positional value is in the current domain of the scope
  variable at that position; a pair of a variable and a value has support when some
  tuple of the table that gives the value to the variable is supported. The whole table
  is scanned, and the support index is not consulted.
\<close>

definition cur_domain_member :: "'a variable \<Rightarrow> 'a pyval \<Rightarrow> bool" where
  "cur_domain_member x v = (case cur_domain x of Inl e \<Rightarrow> False | Inr vs \<Rightarrow> v \<in> set vs)"

definition supported_by :: "'a var_heap \<Rightarrow> var_ref list \<Rightarrow> 'a tuple \<Rightarrow> bool" where
  "supported_by h sc t = list_all (\<lambda>(var, val). cur_domain_member (h var) val) (zip sc t)"

definition brute_force_support :: "'a var_heap \<Rightarrow> 'a constraint \<Rightarrow> var_ref \<Rightarrow> 'a pyval \<Rightarrow> bool" where
  "brute_force_support h c x v =
     list_ex (\<lambda>t. (x, v) \<in> set (zip (scope c) t) \<and> supported_by h (scope c) t) (stored_tuples c)"

text \<open>
  The variables of a CSP are the keys of its dictionary \<^verbatim>\<open>vars_to_cons\<close>: \<^verbatim>\<open>add_var\<close>
  extends both together and nothing else touches either.
\<close>

definition csp_ok :: "csp \<Rightarrow> bool" where
  "csp_ok s \<longleftrightarrow> set (vars s) = fst ` set (vars_to_cons s)"

text \<open>
  The support index agrees with the table: under each key \<open>(variable, value)\<close> it holds
  the stored tuples that give the value to the variable at some position of the scope.
\<close>

definition index_consistent :: "'a constraint \<Rightarrow> bool" where
  "index_consistent c \<longleftrightarrow>
     (\<forall>k. set (entry (sup_tuples c) k) =
          {t \<in> set (stored_tuples c). k \<in> set (zip (scope c) t)})"

text \<open>
  The mapping from variables to constraints agrees with the constraint list: the entry
  of a registered variable holds the listed constraints whose scope contains it, and the
  listed constraints are over registered variables.
\<close>

definition cons_indexed :: "'a con_heap \<Rightarrow> csp \<Rightarrow> bool" where
  "cons_indexed ch s \<longleftrightarrow>
     (\<forall>v\<in>set (vars s).
        set (entry (vars_to_cons s) v) = {c \<in> set (cons s). v \<in> set (scope (ch c))}) \<and>
     (\<forall>c\<in>set (cons s). set (scope (ch c)) \<subseteq> set (vars s))"

section \<open>Properties of Variable\<close>

subsection \<open>The current domain as a list and as a test\<close>

text \<open>
  With one mask entry per domain value, \<^verbatim>\<open>cur_domain\<close> of an unassigned variable
  returns the domain values whose mask entry is true, in domain order, and raises nothing.
\<close>

lemma cur_domain_loop_eq:
  "k + length ds \<le> length cd \<Longrightarrow>
   cur_domain_loop cd (enumerate k ds) vals =
     Inr (vals @ map fst (filter snd (zip ds (drop k cd))))"
proof (induction ds arbitrary: k vals)
  case Nil
  then show ?case by simp
next
  case (Cons d ds)
  then have k: "k < length cd" by simp
  then have dr: "drop k cd = cd ! k # drop (Suc k) cd"
    by (simp add: Cons_nth_drop_Suc)
  from Cons.prems have "Suc k + length ds \<le> length cd" by simp
  from Cons.IH [OF this] k show ?case
    by (simp add: py_getitem_def dr)
qed

lemma cur_domain_unassigned:
  "length (curdom x) = length (dom_vals x) \<Longrightarrow> \<not> is_assigned x \<Longrightarrow>
   cur_domain x = Inr (map fst (filter snd (zip (dom_vals x) (curdom x))))"
  using cur_domain_loop_eq [of 0 "dom_vals x" "curdom x" "[]"]
  by (simp add: cur_domain_def)

lemma takeWhile_index:
  "v \<in> set xs \<Longrightarrow> length (takeWhile (\<lambda>y. y \<noteq> v) xs) < length xs \<and>
     xs ! length (takeWhile (\<lambda>y. y \<noteq> v) xs) = v"
  by (induction xs) auto

lemma in_cur_domain_unassigned:
  "length (curdom x) = length (dom_vals x) \<Longrightarrow> \<not> is_assigned x \<Longrightarrow>
   in_cur_domain x v =
     Inr (v \<in> set (dom_vals x) \<and> curdom x ! length (takeWhile (\<lambda>y. y \<noteq> v) (dom_vals x)))"
  using takeWhile_index [of v "dom_vals x"]
  by (simp add: in_cur_domain_def value_index_def py_index_def py_getitem_def)

lemma in_cur_domain_assigned:
  "var_ok x \<Longrightarrow> is_assigned x \<Longrightarrow> in_cur_domain x v = Inr (v = assignedValue x)"
  by (auto simp: in_cur_domain_def var_ok_def is_assigned_def get_assigned_value_def)

lemma first_index_mask:
  assumes "length cd = length ds" "v \<in> set ds" "cd ! length (takeWhile (\<lambda>y. y \<noteq> v) ds)"
  shows "v \<in> set (map fst (filter snd (zip ds cd)))"
proof -
  let ?i = "length (takeWhile (\<lambda>y. y \<noteq> v) ds)"
  from takeWhile_index [OF assms(2)] have i: "?i < length ds" "ds ! ?i = v" by simp_all
  with assms have "(v, True) \<in> set (zip ds cd)"
    by (auto simp: set_zip intro!: exI [of _ ?i])
  then show ?thesis by force
qed

lemma mask_first_index:
  assumes "length cd = length ds" "distinct ds" "v \<in> set (map fst (filter snd (zip ds cd)))"
  shows "cd ! length (takeWhile (\<lambda>y. y \<noteq> v) ds)"
proof -
  let ?i = "length (takeWhile (\<lambda>y. y \<noteq> v) ds)"
  from assms(3) obtain j where j: "j < length ds" "ds ! j = v" "cd ! j"
    by (auto simp: set_zip)
  then have "v \<in> set ds" by auto
  from takeWhile_index [OF this] have i: "?i < length ds" "ds ! ?i = v" by simp_all
  from nth_eq_iff_index_eq [OF assms(2) i(1) j(1)] i(2) j(2) have "?i = j" by simp
  with j show ?thesis by simp
qed

lemma mask_subset_dom: "v \<in> set (map fst (filter snd (zip ds cd))) \<Longrightarrow> v \<in> set ds"
  by (auto dest: set_zip_leftD)

lemma in_cur_domain_sound:
  assumes "var_ok x" "in_cur_domain x v = Inr True" "cur_domain x = Inr vs"
  shows "v \<in> set vs"
proof (cases "is_assigned x")
  case True
  with assms show ?thesis
    by (auto simp: in_cur_domain_assigned cur_domain_def get_assigned_value_def)
next
  case False
  with assms have len: "length (curdom x) = length (dom_vals x)" by (simp add: var_ok_def)
  from assms(2) in_cur_domain_unassigned [OF len False, of v]
  have m: "v \<in> set (dom_vals x)" "curdom x ! length (takeWhile (\<lambda>y. y \<noteq> v) (dom_vals x))"
    by simp_all
  have "v \<in> set (map fst (filter snd (zip (dom_vals x) (curdom x))))"
    by (rule first_index_mask [OF len m])
  with assms(3) cur_domain_unassigned [OF len False]
  show ?thesis by simp
qed

lemma in_cur_domain_total:
  "var_ok x \<Longrightarrow> \<exists>b. in_cur_domain x v = Inr b"
  by (cases "is_assigned x")
     (simp_all add: in_cur_domain_assigned in_cur_domain_unassigned var_ok_def)

lemma in_cur_domain_distinct:
  assumes "var_ok x" "distinct (dom_vals x)" "cur_domain x = Inr vs"
  shows "in_cur_domain x v = Inr (v \<in> set vs)"
proof (cases "is_assigned x")
  case True
  with assms show ?thesis
    by (auto simp: in_cur_domain_assigned cur_domain_def get_assigned_value_def)
next
  case False
  with assms have len: "length (curdom x) = length (dom_vals x)" by (simp add: var_ok_def)
  from assms(3) cur_domain_unassigned [OF len False]
  have vs: "vs = map fst (filter snd (zip (dom_vals x) (curdom x)))" by simp
  show ?thesis
    unfolding in_cur_domain_unassigned [OF len False] vs
    using first_index_mask [OF len, of v] mask_first_index [OF len assms(2), of v]
      mask_subset_dom [of v "dom_vals x" "curdom x"]
    by blast
qed

subsection \<open>Every method keeps the state well formed\<close>

lemma var_ok_init: "var_ok (Variable_init nm ds)"
  by (simp add: var_ok_def Variable_init_def)

lemma add_domain_values_eq:
  "add_domain_values x vs =
     x\<lparr>dom_vals := dom_vals x @ vs, curdom := curdom x @ replicate (length vs) True\<rparr>"
  by (induction vs arbitrary: x) (simp_all add: replicate_app_Cons_same)

lemma var_ok_add_domain_values: "var_ok x \<Longrightarrow> var_ok (add_domain_values x vs)"
  by (auto simp: add_domain_values_eq var_ok_def)

lemma var_ok_prune_value: "var_ok x \<Longrightarrow> var_ok (fst (prune_value x v))"
  by (auto simp: prune_value_def var_ok_def py_setitem_def split: sum.splits)

lemma var_ok_unprune_value: "var_ok x \<Longrightarrow> var_ok (fst (unprune_value x v))"
  by (auto simp: unprune_value_def var_ok_def py_setitem_def split: sum.splits)

lemma length_foldl_update: "length (foldl (\<lambda>cd i. cd[i := b]) cd is) = length cd"
  by (induction "is" arbitrary: cd) simp_all

lemma var_ok_restore_curdom: "var_ok x \<Longrightarrow> var_ok (restore_curdom x)"
  by (simp add: restore_curdom_def var_ok_def length_foldl_update)

lemma var_ok_assign: "var_ok x \<Longrightarrow> var_ok (fst (assign x v))"
  by (auto simp: assign_def var_ok_def in_cur_domain_def is_assigned_def
      split: sum.splits if_splits)

lemma var_ok_unassign: "var_ok x \<Longrightarrow> var_ok (fst (unassign x))"
  by (auto simp: unassign_def var_ok_def)

lemma assign_curdom: "curdom (fst (assign x v)) = curdom x"
  by (simp add: assign_def split: sum.splits)

lemma unassign_curdom: "curdom (fst (unassign x)) = curdom x"
  by (simp add: unassign_def)

lemmas var_eval = Variable_init_def assign_def unassign_def is_assigned_def in_cur_domain_def
  value_index_def py_index_def py_getitem_def py_setitem_def cur_domain_def
  get_assigned_value_def prune_value_def unprune_value_def var_ok_def enumerate_eq_zip

subsection \<open>Membership of a value outside the domain\<close>

text \<open>
  C10. For a value \<open>v\<close> that is not in the permanent domain of a variable,
  \<^verbatim>\<open>in_cur_domain(v)\<close> returns \<^verbatim>\<open>False\<close> and raises nothing, in every state of the
  variable, assigned or not, where \<^verbatim>\<open>prune_value(v)\<close> raises.
\<close>

theorem in_cur_domain_out_of_domain:
  "v \<notin> set (dom_vals x) \<Longrightarrow>
   in_cur_domain x v = Inr False \<and> snd (prune_value x v) = Raised ValueError"
  by (simp add: in_cur_domain_def prune_value_def value_index_def py_index_def)

theorem in_cur_domain_out_of_domain_witness:
  "PVal (3::int) \<notin> set (dom_vals (Variable_init ''x'' [PVal 1, PVal 2]))
   \<and> in_cur_domain (Variable_init ''x'' [PVal 1, PVal 2]) (PVal (3::int)) = Inr False
   \<and> snd (prune_value (Variable_init ''x'' [PVal 1, PVal 2]) (PVal (3::int)))
       = Raised ValueError
   \<and> PVal 3 \<notin> set (dom_vals (fst (assign (Variable_init ''x'' [PVal 1, PVal 2]) (PVal (1::int)))))
   \<and> is_assigned (fst (assign (Variable_init ''x'' [PVal 1, PVal 2]) (PVal (1::int))))
   \<and> in_cur_domain (fst (assign (Variable_init ''x'' [PVal 1, PVal 2]) (PVal (1::int)))) (PVal 3)
       = Inr False"
proof -
  let ?x = "Variable_init ''x'' [PVal 1, PVal (2::int)]"
  let ?a = "fst (assign ?x (PVal 1))"
  have h: "PVal 3 \<notin> set (dom_vals ?x)" "PVal 3 \<notin> set (dom_vals ?a)" "is_assigned ?a"
    by (simp_all add: var_eval)
  from in_cur_domain_out_of_domain [OF h(1)] in_cur_domain_out_of_domain [OF h(2)] h
  show ?thesis by blast
qed

subsection \<open>Assigning and unassigning\<close>

text \<open>
  C3, as the code has it. Let a variable be in a state the methods can reach, unassigned,
  with a domain that holds no value twice, and let \<open>v\<close> be a value other than
  \<^verbatim>\<open>None\<close> in the list \<^verbatim>\<open>cur_domain()\<close>. Then \<^verbatim>\<open>assign(v)\<close> does its work, after it
  \<^verbatim>\<open>get_assigned_value()\<close> is \<open>v\<close> and \<^verbatim>\<open>cur_domain()\<close> is \<open>[v]\<close>; the following
  \<^verbatim>\<open>unassign()\<close> does its work, and after it \<^verbatim>\<open>cur_domain()\<close> is the list of the domain
  values whose mask entry is true, the same list as before the two calls. No call of
  \<^verbatim>\<open>assign\<close> or \<^verbatim>\<open>unassign\<close>, on any variable \<open>y\<close> and with any value \<open>w\<close>,
  changes the mask.
\<close>

theorem assign_unassign_cycle:
  assumes "var_ok x" and "\<not> is_assigned x" and "distinct (dom_vals x)"
    and "cur_domain x = Inr vs" and "v \<in> set vs" and "v \<noteq> PNone"
  shows "snd (assign x v) = Done
       \<and> get_assigned_value (fst (assign x v)) = v
       \<and> cur_domain (fst (assign x v)) = Inr [v]
       \<and> snd (unassign (fst (assign x v))) = Done
       \<and> curdom (fst (unassign (fst (assign x v)))) = curdom x
       \<and> dom_vals (fst (unassign (fst (assign x v)))) = dom_vals x
       \<and> cur_domain (fst (unassign (fst (assign x v))))
           = Inr (map fst (filter snd (zip (dom_vals x) (curdom x))))
       \<and> cur_domain (fst (unassign (fst (assign x v)))) = cur_domain x
       \<and> curdom (fst (assign y w)) = curdom y
       \<and> curdom (fst (unassign y)) = curdom y"
proof -
  from assms have len: "length (curdom x) = length (dom_vals x)" by (simp add: var_ok_def)
  from in_cur_domain_distinct [OF assms(1,3,4), of v] assms(5)
  have "in_cur_domain x v = Inr True" by simp
  with assms(2) have a: "assign x v = (x\<lparr>assignedValue := v\<rparr>, Done)"
    by (simp add: assign_def)
  have u: "unassign (x\<lparr>assignedValue := v\<rparr>) = (x\<lparr>assignedValue := PNone\<rparr>, Done)"
    using assms(6) by (simp add: unassign_def is_assigned_def)
  from assms(2) have x: "x\<lparr>assignedValue := PNone\<rparr> = x" by (simp add: is_assigned_def)
  show ?thesis
    unfolding a fst_conv snd_conv u x
    using assms(2,6) cur_domain_unassigned [OF len assms(2)]
    by (simp add: assign_curdom unassign_curdom get_assigned_value_def)
      (simp add: cur_domain_def is_assigned_def get_assigned_value_def)
qed

theorem assign_unassign_cycle_witness:
  "var_ok (fst (prune_value (Variable_init ''x'' [PVal 1, PVal 2, PVal (3::int)]) (PVal 2)))
   \<and> \<not> is_assigned (fst (prune_value (Variable_init ''x'' [PVal 1, PVal 2, PVal (3::int)]) (PVal 2)))
   \<and> distinct (dom_vals (fst (prune_value (Variable_init ''x'' [PVal 1, PVal 2, PVal (3::int)]) (PVal 2))))
   \<and> cur_domain (fst (prune_value (Variable_init ''x'' [PVal 1, PVal 2, PVal (3::int)]) (PVal 2)))
        = Inr [PVal 1, PVal 3]
   \<and> PVal 3 \<in> set [PVal 1, PVal (3::int)]
   \<and> PVal (3::int) \<noteq> PNone
   \<and> cur_domain (fst (assign (fst (prune_value (Variable_init ''x'' [PVal 1, PVal 2, PVal (3::int)])
        (PVal 2))) (PVal 3))) = Inr [PVal 3]
   \<and> cur_domain (fst (unassign (fst (assign (fst (prune_value
        (Variable_init ''x'' [PVal 1, PVal 2, PVal (3::int)]) (PVal 2))) (PVal 3)))))
        = Inr [PVal 1, PVal 3]"
proof -
  let ?x = "fst (prune_value (Variable_init ''x'' [PVal 1, PVal 2, PVal (3::int)]) (PVal 2))"
  have x: "?x = \<lparr>var_name = ''x'', dom_vals = [PVal 1, PVal 2, PVal 3],
      curdom = [True, False, True], assignedValue = PNone\<rparr>"
    by (simp add: var_eval)
  have h: "var_ok ?x" "\<not> is_assigned ?x" "distinct (dom_vals ?x)"
    "cur_domain ?x = Inr [PVal 1, PVal 3]" "PVal 3 \<in> set [PVal 1, PVal (3::int)]"
    "PVal (3::int) \<noteq> PNone"
    unfolding x by (simp_all add: var_eval)
  from assign_unassign_cycle [OF h, of ?x "PVal 3"]
  have c: "cur_domain (fst (assign ?x (PVal 3))) = Inr [PVal 3]"
    "cur_domain (fst (unassign (fst (assign ?x (PVal 3))))) = cur_domain ?x"
    by blast+
  from c(2) h(4) have "cur_domain (fst (unassign (fst (assign ?x (PVal 3))))) = Inr [PVal 1, PVal 3]"
    by (rule trans)
  with c(1) h show ?thesis by blast
qed

text \<open>
  The value \<^verbatim>\<open>None\<close> is where the statement without the restrictions fails: a
  domain may hold it, \<^verbatim>\<open>assign(None)\<close> accepts it, and the variable then still counts
  as unassigned, so that \<^verbatim>\<open>cur_domain()\<close> goes on returning the whole unpruned domain.
  And in the domain \<open>[1, 1]\<close> after \<^verbatim>\<open>prune_value(1)\<close> the value \<open>1\<close> is in
  \<^verbatim>\<open>cur_domain()\<close> and \<^verbatim>\<open>assign(1)\<close> is refused, the guard of \<^verbatim>\<open>assign\<close> being
  \<^verbatim>\<open>in_cur_domain\<close>.
\<close>

theorem assign_none_counterexample:
  "\<not> is_assigned (Variable_init ''x'' [PNone, PVal (1::int)])
   \<and> cur_domain (Variable_init ''x'' [PNone, PVal (1::int)]) = Inr [PNone, PVal 1]
   \<and> in_cur_domain (Variable_init ''x'' [PNone, PVal (1::int)]) PNone = Inr True
   \<and> snd (assign (Variable_init ''x'' [PNone, PVal (1::int)]) PNone) = Done
   \<and> cur_domain (fst (assign (Variable_init ''x'' [PNone, PVal (1::int)]) PNone))
        \<noteq> Inr [PNone]
   \<and> \<not> is_assigned (fst (prune_value (Variable_init ''y'' [PVal (1::int), PVal 1]) (PVal 1)))
   \<and> cur_domain (fst (prune_value (Variable_init ''y'' [PVal (1::int), PVal 1]) (PVal 1)))
        = Inr [PVal 1]
   \<and> snd (assign (fst (prune_value (Variable_init ''y'' [PVal (1::int), PVal 1]) (PVal 1)))
        (PVal 1)) = Printed AssignError
   \<and> get_assigned_value (fst (assign
        (fst (prune_value (Variable_init ''y'' [PVal (1::int), PVal 1]) (PVal 1))) (PVal 1)))
        \<noteq> PVal 1"
  by (simp add: var_eval)

subsection \<open>Refusals of the mutating methods\<close>

text \<open>
  C8, as the code has it. \<^verbatim>\<open>assign(v)\<close> on a variable that is already assigned, or with
  a value that is not in the list \<^verbatim>\<open>cur_domain()\<close>, raises nothing: it prints its
  \<open>AssignError\<close> message and returns, as a call that did its work returns; the
  assignment field is not set. \<^verbatim>\<open>unassign()\<close> on a variable that is not assigned
  prints its \<open>UnassignError\<close> message and returns; it never raises. On a reachable
  state \<^verbatim>\<open>assign\<close> never raises either. \<^verbatim>\<open>prune_value(v)\<close> and
  \<^verbatim>\<open>unprune_value(v)\<close> do raise when \<open>v\<close> is not in the permanent domain, the
  \<open>ValueError\<close> of \<^verbatim>\<open>list.index\<close>, before any mask entry is written, and on a
  reachable state they return normally when \<open>v\<close> is in it. Whenever one of the four
  methods ends otherwise than by doing its work, the variable is left as it was.
\<close>

theorem variable_errors:
  "(is_assigned x \<longrightarrow> assign x v = (x, Printed AssignError))
   \<and> (var_ok x \<and> cur_domain x = Inr vs \<and> v \<notin> set vs \<longrightarrow>
        assign x v = (x, Printed AssignError))
   \<and> (var_ok x \<longrightarrow> \<not> raises (snd (assign x v)))
   \<and> (\<not> is_assigned x \<longrightarrow> unassign x = (x, Printed UnassignError))
   \<and> \<not> raises (snd (unassign x))
   \<and> (v \<notin> set (dom_vals x) \<longrightarrow>
        prune_value x v = (x, Raised ValueError) \<and>
        unprune_value x v = (x, Raised ValueError))
   \<and> (var_ok x \<and> v \<in> set (dom_vals x) \<longrightarrow>
        snd (prune_value x v) = Done \<and> snd (unprune_value x v) = Done)
   \<and> (snd (assign x v) \<noteq> Done \<longrightarrow> fst (assign x v) = x)
   \<and> (snd (unassign x) \<noteq> Done \<longrightarrow> fst (unassign x) = x)
   \<and> (snd (prune_value x v) \<noteq> Done \<longrightarrow> fst (prune_value x v) = x)
   \<and> (snd (unprune_value x v) \<noteq> Done \<longrightarrow> fst (unprune_value x v) = x)"
proof -
  have a: "assign x v = (x, Printed AssignError)" if "is_assigned x"
    using that by (simp add: assign_def)
  have b: "assign x v = (x, Printed AssignError)"
    if h: "var_ok x" "cur_domain x = Inr vs" "v \<notin> set vs"
  proof (cases "is_assigned x")
    case True
    then show ?thesis by (rule a)
  next
    case False
    from in_cur_domain_total [OF h(1), of v] obtain b where b: "in_cur_domain x v = Inr b"
      by blast
    with in_cur_domain_sound [OF h(1) _ h(2), of v] h(3) have "\<not> b" by auto
    with b False show ?thesis by (simp add: assign_def)
  qed
  have b': "\<not> raises (snd (assign x v))" if "var_ok x"
  proof -
    from in_cur_domain_total [OF that, of v] obtain b where "in_cur_domain x v = Inr b"
      by blast
    then show ?thesis by (simp add: assign_def raises_def)
  qed
  have c: "unassign x = (x, Printed UnassignError)" if "\<not> is_assigned x"
    using that by (simp add: unassign_def)
  have c': "\<not> raises (snd (unassign x))"
    by (simp add: unassign_def raises_def)
  have d: "prune_value x v = (x, Raised ValueError) \<and>
      unprune_value x v = (x, Raised ValueError)" if "v \<notin> set (dom_vals x)"
    using that by (simp add: prune_value_def unprune_value_def value_index_def py_index_def)
  have d': "snd (prune_value x v) = Done \<and> snd (unprune_value x v) = Done"
    if "var_ok x" "v \<in> set (dom_vals x)"
    using that takeWhile_index [of v "dom_vals x"]
    by (simp add: prune_value_def unprune_value_def value_index_def py_index_def
        py_setitem_def var_ok_def)
  have e: "snd (assign x v) \<noteq> Done \<longrightarrow> fst (assign x v) = x"
    by (simp add: assign_def split: sum.splits)
  have f: "snd (unassign x) \<noteq> Done \<longrightarrow> fst (unassign x) = x"
    by (simp add: unassign_def)
  have g: "snd (prune_value x v) \<noteq> Done \<longrightarrow> fst (prune_value x v) = x"
    by (simp add: prune_value_def split: sum.splits)
  have i: "snd (unprune_value x v) \<noteq> Done \<longrightarrow> fst (unprune_value x v) = x"
    by (simp add: unprune_value_def split: sum.splits)
  from a b b' c c' d d' e f g i show ?thesis by blast
qed

theorem variable_errors_witness:
  "is_assigned (fst (assign (Variable_init ''x'' [PVal 1, PVal (2::int)]) (PVal 1)))
   \<and> assign (fst (assign (Variable_init ''x'' [PVal 1, PVal (2::int)]) (PVal 1))) (PVal 2)
        = (fst (assign (Variable_init ''x'' [PVal 1, PVal (2::int)]) (PVal 1)),
           Printed AssignError)
   \<and> var_ok (fst (prune_value (Variable_init ''x'' [PVal 1, PVal (2::int)]) (PVal 2)))
   \<and> cur_domain (fst (prune_value (Variable_init ''x'' [PVal 1, PVal (2::int)]) (PVal 2)))
        = Inr [PVal 1]
   \<and> PVal (2::int) \<notin> set [PVal 1]
   \<and> assign (fst (prune_value (Variable_init ''x'' [PVal 1, PVal (2::int)]) (PVal 2))) (PVal 2)
        = (fst (prune_value (Variable_init ''x'' [PVal 1, PVal (2::int)]) (PVal 2)),
           Printed AssignError)
   \<and> \<not> is_assigned (Variable_init ''x'' [PVal 1, PVal (2::int)])
   \<and> unassign (Variable_init ''x'' [PVal 1, PVal (2::int)])
        = (Variable_init ''x'' [PVal 1, PVal (2::int)], Printed UnassignError)
   \<and> PVal (3::int) \<notin> set (dom_vals (Variable_init ''x'' [PVal 1, PVal (2::int)]))
   \<and> prune_value (Variable_init ''x'' [PVal 1, PVal (2::int)]) (PVal 3)
        = (Variable_init ''x'' [PVal 1, PVal (2::int)], Raised ValueError)
   \<and> unprune_value (Variable_init ''x'' [PVal 1, PVal (2::int)]) (PVal 3)
        = (Variable_init ''x'' [PVal 1, PVal (2::int)], Raised ValueError)
   \<and> var_ok (Variable_init ''x'' [PVal 1, PVal (2::int)])
   \<and> PVal 2 \<in> set (dom_vals (Variable_init ''x'' [PVal 1, PVal (2::int)]))
   \<and> snd (prune_value (Variable_init ''x'' [PVal 1, PVal (2::int)]) (PVal 2)) = Done"
proof -
  let ?x = "Variable_init ''x'' [PVal 1, PVal (2::int)]"
  let ?a = "fst (assign ?x (PVal 1))"
  let ?p = "fst (prune_value ?x (PVal 2))"
  have h1: "is_assigned ?a" by (simp add: var_eval)
  have h2: "var_ok ?p" "cur_domain ?p = Inr [PVal 1]" "PVal (2::int) \<notin> set [PVal 1]"
    by (simp_all add: var_eval)
  have h3: "\<not> is_assigned ?x" by (simp add: var_eval)
  have h4: "PVal (3::int) \<notin> set (dom_vals ?x)" by (simp add: var_eval)
  have h5: "var_ok ?x" "PVal 2 \<in> set (dom_vals ?x)" by (simp_all add: var_eval)
  from variable_errors [of ?a "PVal 2" "[]"] h1
  have c1: "assign ?a (PVal 2) = (?a, Printed AssignError)" by blast
  from variable_errors [of ?p "PVal 2" "[PVal 1]"] h2
  have c2: "assign ?p (PVal 2) = (?p, Printed AssignError)" by blast
  from variable_errors [of ?x "PVal 3" "[]"] h3 h4
  have c3: "unassign ?x = (?x, Printed UnassignError)"
    "prune_value ?x (PVal 3) = (?x, Raised ValueError)"
    "unprune_value ?x (PVal 3) = (?x, Raised ValueError)" by blast+
  from variable_errors [of ?x "PVal 2" "[]"] h5
  have c4: "snd (prune_value ?x (PVal 2)) = Done" by blast
  from h1 h2 h3 h4 h5 c1 c2 c3 c4 show ?thesis by blast
qed

text \<open>
  On an assigned variable \<^verbatim>\<open>assign\<close> raises nothing, and neither does \<^verbatim>\<open>unassign\<close> on
  one that is not assigned: each prints its message and returns.
\<close>

theorem variable_errors_counterexample:
  "is_assigned (fst (assign (Variable_init ''x'' [PVal 1, PVal (2::int)]) (PVal 1)))
   \<and> snd (assign (fst (assign (Variable_init ''x'' [PVal 1, PVal (2::int)]) (PVal 1))) (PVal 2))
        = Printed AssignError
   \<and> \<not> raises (snd (assign (fst (assign (Variable_init ''x'' [PVal 1, PVal (2::int)]) (PVal 1)))
        (PVal 2)))
   \<and> \<not> is_assigned (Variable_init ''x'' [PVal 1, PVal (2::int)])
   \<and> snd (unassign (Variable_init ''x'' [PVal 1, PVal (2::int)])) = Printed UnassignError
   \<and> \<not> raises (snd (unassign (Variable_init ''x'' [PVal 1, PVal (2::int)])))"
  by (simp add: var_eval raises_def)

subsection \<open>A domain that holds a value twice\<close>

text \<open>
  C9. \<^verbatim>\<open>in_cur_domain(v)\<close> is documented as the test, without building the list, of
  whether \<open>v\<close> is in \<^verbatim>\<open>cur_domain()\<close>. For the variable with domain \<open>[1, 1]\<close> after
  \<^verbatim>\<open>prune_value(1)\<close> the two differ: the list is \<open>[1]\<close>, from the second position,
  and the test reads the mask at the first position only and answers \<^verbatim>\<open>False\<close>.
  (\<open>in_cur_domain_distinct\<close> above is the agreement of the two on a domain without
  repeated values.)
\<close>

theorem in_cur_domain_duplicates:
  "cur_domain (fst (prune_value (Variable_init ''x'' [PVal (1::int), PVal 1]) (PVal 1)))
     = Inr [PVal 1]
   \<and> in_cur_domain (fst (prune_value (Variable_init ''x'' [PVal (1::int), PVal 1]) (PVal 1)))
       (PVal 1) = Inr False"
  by (simp add: var_eval)

section \<open>Properties of Constraint\<close>

subsection \<open>What one call of add_satisfying_tuples does\<close>

text \<open>
  For each position of the tuple that the scope has too, the tuple is appended to the
  index entry of that position's variable and value; the first position beyond the scope
  raises \<open>IndexError\<close>, with the earlier positions already indexed.
\<close>

lemma entry_update: "entry (AList.update k v d) k' = (if k' = k then v else entry d k')"
  by (simp add: entry_def update_conv')

lemma entry_sup_append:
  "entry (sup_append k t d) k' = (if k' = k then entry d k @ [t] else entry d k')"
  by (cases "map_of d k") (simp_all add: sup_append_def dict_has_def entry_def update_conv')

lemma add_support_snd:
  "snd (add_support sc t (enumerate j ys) d) =
     (if length (drop j sc) < length ys then Raised IndexError else Done)"
proof (induction ys arbitrary: j d)
  case Nil
  then show ?case by simp
next
  case (Cons y ys)
  show ?case
  proof (cases "j < length sc")
    case True
    with Cons.IH [of "Suc j"] show ?thesis
      by (auto simp: py_getitem_def)
  next
    case False
    then show ?thesis by (simp add: py_getitem_def)
  qed
qed

lemma add_support_entry:
  "entry (fst (add_support sc t (enumerate j ys) d)) k =
     entry d k @ replicate (count_list (zip (drop j sc) ys) k) t"
proof (induction ys arbitrary: j d)
  case Nil
  then show ?case by simp
next
  case (Cons y ys)
  show ?case
  proof (cases "j < length sc")
    case True
    then have dr: "drop j sc = sc ! j # drop (Suc j) sc"
      by (simp add: Cons_nth_drop_Suc)
    from True Cons.IH [of "Suc j" "sup_append (sc ! j, y) t d"] show ?thesis
      by (simp add: py_getitem_def dr entry_sup_append replicate_app_Cons_same)
  next
    case False
    then show ?thesis by (simp add: py_getitem_def)
  qed
qed

lemma add_one:
  "add_satisfying_tuples c [t] =
     (c\<lparr>sat_tuples := (if \<not> dict_has (sat_tuples c) t then AList.update t True (sat_tuples c)
                        else sat_tuples c),
        sup_tuples := fst (add_support (scope c) t (enumerate 0 t) (sup_tuples c))\<rparr>,
      snd (add_support (scope c) t (enumerate 0 t) (sup_tuples c)))"
  by (simp add: Let_def split: outcome.splits)

lemma add_cons:
  "add_satisfying_tuples c (t # ts) =
     (if snd (add_satisfying_tuples c [t]) = Done
      then add_satisfying_tuples (fst (add_satisfying_tuples c [t])) ts
      else add_satisfying_tuples c [t])"
  by (simp add: Let_def split: outcome.splits)

declare add_satisfying_tuples.simps(2) [simp del]

lemma add_one_scope: "scope (fst (add_satisfying_tuples c [t])) = scope c"
  by (simp add: add_one)

lemma add_scope: "scope (fst (add_satisfying_tuples c ts)) = scope c"
proof (induction ts arbitrary: c)
  case Nil
  then show ?case by simp
next
  case (Cons t ts)
  then show ?case
    by (simp add: add_cons [of c t ts] add_one_scope)
qed

lemma add_calls_scope: "scope (add_calls c calls) = scope c"
  by (induction calls arbitrary: c) (simp_all add: add_scope)

lemma stored_update: "set (map fst (AList.update k v d)) = insert k (set (map fst d))"
  using dom_update [of k v d] by simp

lemma dict_has_stored: "dict_has d k \<longleftrightarrow> k \<in> set (map fst d)"
  by (simp add: dict_has_def map_of_eq_None_iff)

lemma add_one_stored:
  "set (stored_tuples (fst (add_satisfying_tuples c [t]))) = insert t (set (stored_tuples c))"
  unfolding add_one stored_tuples_def
  using dict_has_stored [of "sat_tuples c" t]
  by (auto simp: stored_update simp del: set_map)

lemma add_one_entry:
  "entry (sup_tuples (fst (add_satisfying_tuples c [t]))) k =
     entry (sup_tuples c) k @ replicate (count_list (zip (scope c) t) k) t"
  using add_support_entry [of "scope c" t 0 t "sup_tuples c" k]
  by (simp add: add_one)

lemma add_one_snd:
  "snd (add_satisfying_tuples c [t]) =
     (if length (scope c) < length t then Raised IndexError else Done)"
  using add_support_snd [of "scope c" t 0 t "sup_tuples c"]
  by (simp add: add_one)

lemma add_snd:
  "snd (add_satisfying_tuples c ts) =
     (if \<exists>t\<in>set ts. length (scope c) < length t then Raised IndexError else Done)"
proof (induction ts arbitrary: c)
  case Nil
  then show ?case by simp
next
  case (Cons t ts)
  show ?case
    by (simp add: add_cons [of c t ts] Cons.IH add_one_scope add_one_snd)
qed

lemma add_stored_subset:
  "set (stored_tuples (fst (add_satisfying_tuples c ts))) \<subseteq> set (stored_tuples c) \<union> set ts"
proof (induction ts arbitrary: c)
  case Nil
  then show ?case by simp
next
  case (Cons t ts)
  from Cons.IH [of "fst (add_satisfying_tuples c [t])"] show ?case
    by (auto simp: add_cons [of c t ts] add_one_stored)
qed

lemma add_stored_success:
  "snd (add_satisfying_tuples c ts) = Done \<Longrightarrow>
   set (stored_tuples (fst (add_satisfying_tuples c ts))) = set (stored_tuples c) \<union> set ts"
proof (induction ts arbitrary: c)
  case Nil
  then show ?case by simp
next
  case (Cons t ts)
  from Cons.prems have one: "snd (add_satisfying_tuples c [t]) = Done"
    by (simp add: add_cons [of c t ts] split: if_splits)
  with Cons.prems have "snd (add_satisfying_tuples (fst (add_satisfying_tuples c [t])) ts) = Done"
    by (simp add: add_cons [of c t ts])
  from Cons.IH [OF this] one show ?case
    by (simp add: add_cons [of c t ts] add_one_stored)
qed

lemma add_stored_grows:
  "set (stored_tuples c) \<subseteq> set (stored_tuples (fst (add_satisfying_tuples c ts)))"
proof (induction ts arbitrary: c)
  case Nil
  then show ?case by simp
next
  case (Cons t ts)
  from Cons.IH [of "fst (add_satisfying_tuples c [t])"] show ?case
    by (auto simp: add_cons [of c t ts] add_one_stored)
qed

lemma long_tuple_stored:
  "\<exists>t\<in>set ts. length (scope c) < length t \<Longrightarrow>
   \<exists>t\<in>set ts. length (scope c) < length t \<and>
     t \<in> set (stored_tuples (fst (add_satisfying_tuples c ts)))"
proof (induction ts arbitrary: c)
  case Nil
  then show ?case by simp
next
  case (Cons t ts)
  show ?case
  proof (cases "length (scope c) < length t")
    case True
    have "t \<in> set (stored_tuples (fst (add_satisfying_tuples c [t])))"
      by (simp add: add_one_stored)
    with True show ?thesis
      by (auto simp: add_cons [of c t ts] add_one_snd)
  next
    case False
    with Cons.prems have "\<exists>u\<in>set ts. length (scope (fst (add_satisfying_tuples c [t]))) < length u"
      by (simp add: add_one_scope)
    from Cons.IH [OF this] False show ?thesis
      by (auto simp: add_cons [of c t ts] add_one_snd add_one_scope)
  qed
qed

lemma add_calls_stored_subset:
  "set (stored_tuples (add_calls c calls)) \<subseteq> set (stored_tuples c) \<union> \<Union> (set ` set calls)"
proof (induction calls arbitrary: c)
  case Nil
  then show ?case by simp
next
  case (Cons ts calls)
  from Cons.IH [of "fst (add_satisfying_tuples c ts)"] add_stored_subset [of c ts]
  show ?case by auto
qed

lemma index_consistent_init: "index_consistent (Constraint_init nm sc)"
  by (simp add: index_consistent_def Constraint_init_def entry_def stored_tuples_def)

lemma index_consistent_add_one:
  assumes "index_consistent c"
  shows "index_consistent (fst (add_satisfying_tuples c [t]))"
proof -
  have "set (entry (sup_tuples (fst (add_satisfying_tuples c [t]))) k) =
      {u \<in> set (stored_tuples (fst (add_satisfying_tuples c [t]))).
         k \<in> set (zip (scope (fst (add_satisfying_tuples c [t]))) u)}" for k
  proof -
    from assms have old: "set (entry (sup_tuples c) k) =
        {u \<in> set (stored_tuples c). k \<in> set (zip (scope c) u)}"
      unfolding index_consistent_def by blast
    have new: "set (replicate (count_list (zip (scope c) t) k) t) =
        (if k \<in> set (zip (scope c) t) then {t} else {})"
      by (simp add: count_list_0_iff)
    show ?thesis
      unfolding add_one_entry add_one_stored add_one_scope set_append old new
      by auto
  qed
  then show ?thesis unfolding index_consistent_def by blast
qed

lemma index_consistent_add:
  "index_consistent c \<Longrightarrow> index_consistent (fst (add_satisfying_tuples c ts))"
proof (induction ts arbitrary: c)
  case Nil
  then show ?case by simp
next
  case (Cons t ts)
  then show ?case
    by (simp add: add_cons [of c t ts] index_consistent_add_one)
qed

lemma index_consistent_add_calls:
  "index_consistent c \<Longrightarrow> index_consistent (add_calls c calls)"
  by (induction calls arbitrary: c) (simp_all add: index_consistent_add)

lemma has_support_entry:
  "has_support h c x v = has_support_loop h c (entry (sup_tuples c) (x, v))"
  by (simp add: has_support_def dict_has_def dict_get_def entry_def split: option.splits)

lemma has_support_loop_scope:
  "scope c = scope c' \<Longrightarrow> has_support_loop h c ts = has_support_loop h c' ts"
  by (induction ts) (auto simp: tuple_is_valid_def split: sum.splits)

lemma has_support_loop_append_invalid:
  "tuple_is_valid h c t = Inr False \<Longrightarrow>
   has_support_loop h c (ts @ replicate n t) = has_support_loop h c ts"
proof (induction ts)
  case Nil
  then show ?case by (induction n) simp_all
next
  case (Cons u ts)
  then show ?case by (simp split: sum.splits)
qed

lemma has_support_loop_append_present:
  "t \<in> set ts \<Longrightarrow> has_support_loop h c (ts @ replicate n t) = has_support_loop h c ts"
proof (induction ts)
  case Nil
  then show ?case by simp
next
  case (Cons u ts)
  show ?case
  proof (cases "tuple_is_valid h c u")
    case (Inl e)
    then show ?thesis by simp
  next
    case (Inr b)
    show ?thesis
    proof (cases b)
      case True
      with Inr show ?thesis by simp
    next
      case False
      show ?thesis
      proof (cases "u = t")
        case True
        with Inr False has_support_loop_append_invalid [of h c t ts n] show ?thesis by simp
      next
        case neq: False
        with Cons.prems have "t \<in> set ts" by simp
        from Cons.IH [OF this] Inr False show ?thesis by simp
      qed
    qed
  qed
qed

subsection \<open>A valid tuple, position by position\<close>

lemma cur_domain_total: "var_ok x \<Longrightarrow> \<exists>vs. cur_domain x = Inr vs"
  by (cases "is_assigned x") (simp_all add: cur_domain_unassigned var_ok_def, simp add: cur_domain_def)

lemma in_cur_domain_member:
  assumes "var_ok x" "distinct (dom_vals x)"
  shows "in_cur_domain x v = Inr (cur_domain_member x v)"
proof -
  from cur_domain_total [OF assms(1)] obtain vs where vs: "cur_domain x = Inr vs" by blast
  from in_cur_domain_distinct [OF assms vs, of v] vs show ?thesis
    by (simp add: cur_domain_member_def)
qed

lemma tuple_is_valid_loop_eq:
  assumes "\<forall>var\<in>set vs. var_ok (h var) \<and> distinct (dom_vals (h var))"
    and "j + length vs \<le> length t"
  shows "tuple_is_valid_loop h t (enumerate j vs) =
     Inr (list_all (\<lambda>(var, val). cur_domain_member (h var) val) (zip vs (drop j t)))"
  using assms
proof (induction vs arbitrary: j)
  case Nil
  then show ?case by simp
next
  case (Cons var vs)
  then have j: "j < length t" by simp
  then have dr: "drop j t = t ! j # drop (Suc j) t"
    by (simp add: Cons_nth_drop_Suc)
  from Cons.prems have m: "in_cur_domain (h var) (t ! j) = Inr (cur_domain_member (h var) (t ! j))"
    by (simp add: in_cur_domain_member)
  from Cons.prems have "\<forall>var\<in>set vs. var_ok (h var) \<and> distinct (dom_vals (h var))"
    "Suc j + length vs \<le> length t" by simp_all
  from Cons.IH [OF this] j show ?case
    by (simp add: py_getitem_def dr m)
qed

lemma tuple_is_valid_eq:
  assumes "\<forall>var\<in>set (scope c). var_ok (h var) \<and> distinct (dom_vals (h var))"
    and "length (scope c) \<le> length t"
  shows "tuple_is_valid h c t = Inr (supported_by h (scope c) t)"
  using tuple_is_valid_loop_eq [of "scope c" h 0 t] assms
  by (simp add: tuple_is_valid_def supported_by_def)

lemma has_support_loop_eq:
  assumes "\<forall>var\<in>set (scope c). var_ok (h var) \<and> distinct (dom_vals (h var))"
    and "\<forall>t\<in>set ts. length (scope c) \<le> length t"
  shows "has_support_loop h c ts = Inr (list_ex (supported_by h (scope c)) ts)"
  using assms(2)
proof (induction ts)
  case Nil
  then show ?case by simp
next
  case (Cons t ts)
  with tuple_is_valid_eq [OF assms(1), of t] show ?case by simp
qed

lemmas con_eval = Constraint_init_def add_satisfying_tuples.simps(2) Let_def dict_has_def
  dict_get_def sup_append_def has_support_def tuple_is_valid_def check_def stored_tuples_def
  entry_def brute_force_support_def supported_by_def cur_domain_member_def

subsection \<open>Tuples of the wrong length\<close>

text \<open>
  C7, as the code has it. \<^verbatim>\<open>add_satisfying_tuples\<close> has no test of the length of a
  tuple. It raises exactly when one of its tuples is longer than the scope, and what it
  raises is the \<open>IndexError\<close> of \<^verbatim>\<open>self.scope[i]\<close>; when it has raised, a tuple of
  the call that is longer than the scope is in the table. A call that raised nothing has
  stored every one of its tuples, the shorter ones too. So a table whose tuples are no
  longer than the scope stays so under the calls that raise nothing, and a table whose
  tuples have the length of the scope stays so under calls whose tuples have that
  length, and these calls raise nothing. No call removes a tuple from the table or
  stores one that it was not given.
\<close>

theorem add_satisfying_tuples_arity:
  "snd (add_satisfying_tuples c ts) =
     (if \<exists>t\<in>set ts. length (scope c) < length t then Raised IndexError else Done)
   \<and> (snd (add_satisfying_tuples c ts) = Done \<longrightarrow>
        set (stored_tuples (fst (add_satisfying_tuples c ts))) = set (stored_tuples c) \<union> set ts)
   \<and> ((\<forall>t\<in>set (stored_tuples c). length t \<le> length (scope c)) \<and>
        snd (add_satisfying_tuples c ts) = Done \<longrightarrow>
        (\<forall>t\<in>set (stored_tuples (fst (add_satisfying_tuples c ts))). length t \<le> length (scope c)))
   \<and> ((\<forall>t\<in>set (stored_tuples c). length t = length (scope c)) \<and>
        (\<forall>t\<in>set ts. length t = length (scope c)) \<longrightarrow>
        snd (add_satisfying_tuples c ts) = Done \<and>
        (\<forall>t\<in>set (stored_tuples (fst (add_satisfying_tuples c ts))). length t = length (scope c)))
   \<and> (snd (add_satisfying_tuples c ts) = Raised IndexError \<longrightarrow>
        (\<exists>t\<in>set ts. length (scope c) < length t \<and>
           t \<in> set (stored_tuples (fst (add_satisfying_tuples c ts)))))
   \<and> set (stored_tuples c) \<subseteq> set (stored_tuples (fst (add_satisfying_tuples c ts)))
   \<and> set (stored_tuples (fst (add_satisfying_tuples c ts))) \<subseteq> set (stored_tuples c) \<union> set ts"
proof -
  have a: "snd (add_satisfying_tuples c ts) =
      (if \<exists>t\<in>set ts. length (scope c) < length t then Raised IndexError else Done)"
    by (rule add_snd)
  have b: "set (stored_tuples (fst (add_satisfying_tuples c ts))) = set (stored_tuples c) \<union> set ts"
    if "snd (add_satisfying_tuples c ts) = Done"
    using that by (rule add_stored_success)
  have d: "\<forall>t\<in>set (stored_tuples (fst (add_satisfying_tuples c ts))). length t \<le> length (scope c)"
    if "\<forall>t\<in>set (stored_tuples c). length t \<le> length (scope c)"
      and ok: "snd (add_satisfying_tuples c ts) = Done"
  proof -
    from ok a have "\<forall>t\<in>set ts. length t \<le> length (scope c)"
      by (auto split: if_splits simp: not_less)
    with that(1) show ?thesis unfolding b [OF ok] by blast
  qed
  have e: "snd (add_satisfying_tuples c ts) = Done \<and>
      (\<forall>t\<in>set (stored_tuples (fst (add_satisfying_tuples c ts))). length t = length (scope c))"
    if "\<forall>t\<in>set (stored_tuples c). length t = length (scope c)"
      and "\<forall>t\<in>set ts. length t = length (scope c)"
  proof -
    from that(2) a have ok: "snd (add_satisfying_tuples c ts) = Done" by auto
    with that show ?thesis unfolding b [OF ok] by blast
  qed
  have f: "\<exists>t\<in>set ts. length (scope c) < length t \<and>
      t \<in> set (stored_tuples (fst (add_satisfying_tuples c ts)))"
    if r: "snd (add_satisfying_tuples c ts) = Raised IndexError"
  proof -
    from r a have "\<exists>t\<in>set ts. length (scope c) < length t"
      by (simp split: if_splits)
    then show ?thesis by (rule long_tuple_stored)
  qed
  have g: "set (stored_tuples c) \<subseteq> set (stored_tuples (fst (add_satisfying_tuples c ts)))"
    by (rule add_stored_grows)
  have h: "set (stored_tuples (fst (add_satisfying_tuples c ts))) \<subseteq> set (stored_tuples c) \<union> set ts"
    by (rule add_stored_subset)
  from a b d e f g h show ?thesis by blast
qed

theorem add_satisfying_tuples_arity_witness:
  "snd (add_satisfying_tuples (Constraint_init ''c'' [0, 1]) [[PVal 1, PVal (2::int)], [PVal 2, PVal 1]])
     = Done
   \<and> set (stored_tuples (fst (add_satisfying_tuples (Constraint_init ''c'' [0, 1])
        [[PVal 1, PVal (2::int)], [PVal 2, PVal 1]]))) = {[PVal 1, PVal 2], [PVal 2, PVal 1]}
   \<and> snd (add_satisfying_tuples (Constraint_init ''c'' [0, 1]) [[PVal (1::int)]]) = Done
   \<and> set (stored_tuples (fst (add_satisfying_tuples (Constraint_init ''c'' [0, 1])
        [[PVal (1::int)]]))) = {[PVal 1]}
   \<and> snd (add_satisfying_tuples (Constraint_init ''c'' [0, 1]) [[PVal 1, PVal 2, PVal (3::int)]])
     = Raised IndexError
   \<and> [PVal 1, PVal 2, PVal (3::int)] \<in> set (stored_tuples (fst (add_satisfying_tuples
        (Constraint_init ''c'' [0, 1]) [[PVal 1, PVal 2, PVal (3::int)]])))"
proof -
  let ?c = "Constraint_init ''c'' [0, 1] :: int constraint"
  have s: "stored_tuples ?c = []" "scope ?c = [0, 1]"
    by (simp_all only: Constraint_init_def stored_tuples_def constraint.simps list.map)
  have h1: "(\<forall>t\<in>set (stored_tuples ?c). length t = length (scope ?c)) \<and>
      (\<forall>t\<in>set [[PVal 1, PVal (2::int)], [PVal 2, PVal 1]]. length t = length (scope ?c))"
    unfolding s by simp
  from add_satisfying_tuples_arity [of ?c "[[PVal 1, PVal 2], [PVal 2, PVal 1]]"] h1
  have a0: "snd (add_satisfying_tuples ?c [[PVal 1, PVal 2], [PVal 2, PVal 1]]) = Done"
    by blast
  with add_satisfying_tuples_arity [of ?c "[[PVal 1, PVal 2], [PVal 2, PVal 1]]"]
  have a: "set (stored_tuples (fst (add_satisfying_tuples ?c [[PVal 1, PVal 2], [PVal 2, PVal 1]]))) =
      set (stored_tuples ?c) \<union> set [[PVal 1, PVal 2], [PVal 2, PVal 1]]"
    by blast
  from add_satisfying_tuples_arity [of ?c "[[PVal 1]]"]
  have b0: "snd (add_satisfying_tuples ?c [[PVal 1]]) = Done" unfolding s by simp
  with add_satisfying_tuples_arity [of ?c "[[PVal 1]]"]
  have b: "set (stored_tuples (fst (add_satisfying_tuples ?c [[PVal 1]]))) =
      set (stored_tuples ?c) \<union> set [[PVal 1]]" by blast
  from add_satisfying_tuples_arity [of ?c "[[PVal 1, PVal 2, PVal 3]]"]
  have c: "snd (add_satisfying_tuples ?c [[PVal 1, PVal 2, PVal 3]]) = Raised IndexError"
    unfolding s by simp
  with add_satisfying_tuples_arity [of ?c "[[PVal 1, PVal 2, PVal 3]]"]
  have "\<exists>t\<in>set [[PVal 1, PVal 2, PVal (3::int)]]. length (scope ?c) < length t \<and>
      t \<in> set (stored_tuples (fst (add_satisfying_tuples ?c [[PVal 1, PVal 2, PVal 3]])))"
    by blast
  then have c': "[PVal 1, PVal 2, PVal 3] \<in>
      set (stored_tuples (fst (add_satisfying_tuples ?c [[PVal 1, PVal 2, PVal 3]])))"
    by simp
  from a0 a b0 b c c' show ?thesis unfolding s by simp
qed

text \<open>
  With a scope of two variables, the tuple \<open>(1,)\<close> is stored without any error, and
  the tuple \<open>(1, 2, 3)\<close> is in the table when its \<open>IndexError\<close> leaves the method.
\<close>

theorem add_satisfying_tuples_arity_counterexample:
  "snd (add_satisfying_tuples (Constraint_init ''c'' [0, 1]) [[PVal (1::int)]]) = Done
   \<and> stored_tuples (fst (add_satisfying_tuples (Constraint_init ''c'' [0, 1]) [[PVal (1::int)]]))
       = [[PVal 1]]
   \<and> length [PVal (1::int)] \<noteq> length (scope (Constraint_init ''c'' [0, 1]))
   \<and> snd (add_satisfying_tuples (Constraint_init ''c'' [0, 1]) [[PVal 1, PVal 2, PVal (3::int)]])
       = Raised IndexError
   \<and> stored_tuples (fst (add_satisfying_tuples (Constraint_init ''c'' [0, 1])
        [[PVal 1, PVal 2, PVal (3::int)]])) = [[PVal 1, PVal 2, PVal 3]]"
  by (simp add: con_eval py_getitem_def)

subsection \<open>Adding a tuple that is present\<close>

text \<open>
  C4, as the code has it. Let a constraint be the result of any sequence of
  \<^verbatim>\<open>add_satisfying_tuples\<close> calls and \<open>t\<close> a tuple of its table (\<^verbatim>\<open>check(t)\<close> holds).
  Adding \<open>t\<close> again leaves the table unchanged, and the results of \<^verbatim>\<open>check\<close> and of
  \<^verbatim>\<open>has_support\<close> unchanged, for every argument and every state of the variables. The
  support index does change: under each key, \<open>t\<close> is appended once more for each
  position of \<open>t\<close> that has this key.
\<close>

theorem readd_present_tuple:
  assumes reach: "c = add_calls (Constraint_init nm sc) calls"
    and present: "check c t"
  shows "sat_tuples (fst (add_satisfying_tuples c [t])) = sat_tuples c
     \<and> check (fst (add_satisfying_tuples c [t])) vals = check c vals
     \<and> has_support h (fst (add_satisfying_tuples c [t])) x v = has_support h c x v
     \<and> entry (sup_tuples (fst (add_satisfying_tuples c [t]))) k =
         entry (sup_tuples c) k @ replicate (count_list (zip (scope c) t) k) t"
proof -
  let ?c' = "fst (add_satisfying_tuples c [t])"
  from present have sat: "sat_tuples ?c' = sat_tuples c"
    by (simp add: add_one check_def)
  then have chk: "check ?c' vals = check c vals" by (simp add: check_def)
  have ent: "entry (sup_tuples ?c') k =
      entry (sup_tuples c) k @ replicate (count_list (zip (scope c) t) k) t" for k
    by (rule add_one_entry)
  from reach have "index_consistent c"
    by (simp add: index_consistent_add_calls [OF index_consistent_init])
  then have idx: "set (entry (sup_tuples c) (x, v)) =
      {u \<in> set (stored_tuples c). (x, v) \<in> set (zip (scope c) u)}"
    unfolding index_consistent_def by blast
  from present have st: "t \<in> set (stored_tuples c)"
    by (simp add: check_def dict_has_stored stored_tuples_def)
  have "has_support_loop h c
      (entry (sup_tuples c) (x, v) @ replicate (count_list (zip (scope c) t) (x, v)) t) =
      has_support_loop h c (entry (sup_tuples c) (x, v))"
  proof (cases "(x, v) \<in> set (zip (scope c) t)")
    case True
    with idx st have "t \<in> set (entry (sup_tuples c) (x, v))" by simp
    then show ?thesis by (rule has_support_loop_append_present)
  next
    case False
    then have "count_list (zip (scope c) t) (x, v) = 0" by (simp add: count_list_0_iff)
    then show ?thesis by simp
  qed
  then have sup: "has_support h ?c' x v = has_support h c x v"
    unfolding has_support_entry ent
    using has_support_loop_scope [of ?c' c h] by (simp add: add_one_scope)
  from sat chk sup ent show ?thesis by blast
qed

theorem readd_present_tuple_witness:
  "check (add_calls (Constraint_init ''c'' [0, 1]) [[[PVal 1, PVal (2::int)]]]) [PVal 1, PVal 2]
   \<and> sat_tuples (fst (add_satisfying_tuples
         (add_calls (Constraint_init ''c'' [0, 1]) [[[PVal 1, PVal (2::int)]]]) [[PVal 1, PVal 2]]))
       = [([PVal 1, PVal 2], True)]
   \<and> has_support ((!) [Variable_init ''x'' [PVal 1, PVal (2::int)],
         Variable_init ''y'' [PVal 1, PVal 2]])
       (fst (add_satisfying_tuples
         (add_calls (Constraint_init ''c'' [0, 1]) [[[PVal 1, PVal (2::int)]]]) [[PVal 1, PVal 2]]))
       0 (PVal 1) = Inr True
   \<and> entry (sup_tuples (fst (add_satisfying_tuples
         (add_calls (Constraint_init ''c'' [0, 1]) [[[PVal 1, PVal (2::int)]]]) [[PVal 1, PVal 2]])))
       (0, PVal 1) = [[PVal 1, PVal 2], [PVal 1, PVal 2]]"
proof -
  let ?h = "(!) [Variable_init ''x'' [PVal 1, PVal (2::int)], Variable_init ''y'' [PVal 1, PVal 2]]"
  let ?c = "add_calls (Constraint_init ''c'' [0, 1]) [[[PVal 1, PVal (2::int)]]]"
  let ?t = "[PVal 1, PVal (2::int)]"
  have c: "?c = \<lparr>con_name = ''c'', scope = [0, 1], sat_tuples = [(?t, True)],
      sup_tuples = [((0, PVal 1), [?t]), ((1, PVal 2), [?t])]\<rparr>"
    by (simp add: con_eval py_getitem_def)
  have p: "check ?c ?t" unfolding c by (simp add: con_eval)
  have s: "has_support ?h ?c 0 (PVal 1) = Inr True"
    unfolding c by (simp add: con_eval var_eval)
  from readd_present_tuple [OF refl p, of ?t ?h 0 "PVal 1" "(0, PVal 1)"] s p
  show ?thesis unfolding c by (simp add: entry_def)
qed

text \<open>
  The support index after the second call is not the one after the first: the loop over
  the positions is outside the test \<^verbatim>\<open>if not t in self.sat_tuples\<close>.
\<close>

theorem readd_index_counterexample:
  "sup_tuples (fst (add_satisfying_tuples
       (fst (add_satisfying_tuples (Constraint_init ''c'' [0]) [[PVal (1::int)]])) [[PVal 1]]))
     = [((0, PVal 1), [[PVal 1], [PVal 1]])]
   \<and> sup_tuples (fst (add_satisfying_tuples (Constraint_init ''c'' [0]) [[PVal (1::int)]]))
     = [((0, PVal 1), [[PVal 1]])]"
  by (simp add: con_eval py_getitem_def)

subsection \<open>The support index against the whole table\<close>

text \<open>
  C1, as the code has it. Let a constraint be the result of any sequence of
  \<^verbatim>\<open>add_satisfying_tuples\<close> calls on tuples that all have the length of the scope, and
  let every variable of the scope be in a state its methods can reach, with a domain that
  holds no value twice. Then \<^verbatim>\<open>has_support(x, v)\<close> raises nothing, and it returns
  \<^verbatim>\<open>True\<close> if and only if some tuple of the table that gives \<open>v\<close> to \<open>x\<close> has
  every positional value in the list \<^verbatim>\<open>cur_domain()\<close> of the scope variable at that
  position: the scan of the entry of \<open>(x, v)\<close> agrees with the scan of the whole table.
\<close>

theorem has_support_brute_force:
  assumes calls: "\<forall>ts\<in>set calls. \<forall>t\<in>set ts. length t = length sc"
    and vars: "\<forall>var\<in>set sc. var_ok (h var) \<and> distinct (dom_vals (h var))"
  shows "has_support h (add_calls (Constraint_init nm sc) calls) x v =
     Inr (brute_force_support h (add_calls (Constraint_init nm sc) calls) x v)"
proof -
  let ?c = "add_calls (Constraint_init nm sc) calls"
  have sc: "scope ?c = sc" by (simp add: add_calls_scope Constraint_init_def)
  have "index_consistent ?c"
    by (rule index_consistent_add_calls [OF index_consistent_init])
  then have idx: "set (entry (sup_tuples ?c) (x, v)) =
      {t \<in> set (stored_tuples ?c). (x, v) \<in> set (zip sc t)}"
    unfolding index_consistent_def sc by blast
  have "set (stored_tuples ?c) \<subseteq> \<Union> (set ` set calls)"
    using add_calls_stored_subset [of "Constraint_init nm sc" calls]
    by (simp add: stored_tuples_def Constraint_init_def)
  with calls have len: "\<forall>t\<in>set (stored_tuples ?c). length t = length sc" by blast
  with idx have "\<forall>t\<in>set (entry (sup_tuples ?c) (x, v)). length (scope ?c) \<le> length t"
    by (simp add: sc)
  moreover from vars have "\<forall>var\<in>set (scope ?c). var_ok (h var) \<and> distinct (dom_vals (h var))"
    by (simp add: sc)
  ultimately have "has_support h ?c x v =
      Inr (list_ex (supported_by h (scope ?c)) (entry (sup_tuples ?c) (x, v)))"
    unfolding has_support_entry by (rule has_support_loop_eq [rotated])
  also have "list_ex (supported_by h (scope ?c)) (entry (sup_tuples ?c) (x, v)) =
      brute_force_support h ?c x v"
    unfolding brute_force_support_def list_ex_iff idx sc by blast
  finally show ?thesis .
qed

theorem has_support_brute_force_witness:
  "has_support ((!) [Variable_init ''x'' [PVal 1, PVal (2::int)],
       fst (prune_value (Variable_init ''y'' [PVal 1, PVal 2]) (PVal 2))])
     (add_calls (Constraint_init ''c'' [0, 1]) [[[PVal 1, PVal 2]], [[PVal 2, PVal 1]]])
     0 (PVal 2) = Inr True
   \<and> has_support ((!) [Variable_init ''x'' [PVal 1, PVal (2::int)],
       fst (prune_value (Variable_init ''y'' [PVal 1, PVal 2]) (PVal 2))])
     (add_calls (Constraint_init ''c'' [0, 1]) [[[PVal 1, PVal 2]], [[PVal 2, PVal 1]]])
     0 (PVal 1) = Inr False"
proof -
  let ?h = "(!) [Variable_init ''x'' [PVal 1, PVal (2::int)],
       fst (prune_value (Variable_init ''y'' [PVal 1, PVal 2]) (PVal 2))]"
  let ?calls = "[[[PVal 1, PVal 2]], [[PVal 2, PVal (1::int)]]]"
  let ?c = "add_calls (Constraint_init ''c'' [0, 1]) ?calls"
  have h1: "\<forall>ts\<in>set ?calls. \<forall>t\<in>set ts. length t = length [0::nat, 1]" by simp
  have h2: "\<forall>var\<in>set [0::nat, 1]. var_ok (?h var) \<and> distinct (dom_vals (?h var))"
    by (simp add: var_eval)
  have b1: "brute_force_support ?h ?c 0 (PVal 2)"
    by (simp add: con_eval var_eval)
  have b2: "\<not> brute_force_support ?h ?c 0 (PVal 1)"
    by (simp add: con_eval var_eval)
  from has_support_brute_force [OF h1 h2, of "''c''"] b1 b2 show ?thesis by simp
qed

text \<open>
  A tuple shorter than the scope is accepted by \<^verbatim>\<open>add_satisfying_tuples\<close>; its values
  are all current, and \<^verbatim>\<open>has_support\<close> raises \<open>IndexError\<close> at \<^verbatim>\<open>t[i]\<close> in
  \<^verbatim>\<open>tuple_is_valid\<close> instead of returning \<^verbatim>\<open>True\<close>. And over a variable with the
  domain \<open>[1, 1]\<close> after \<^verbatim>\<open>prune_value(1)\<close>, the tuple \<open>(1,)\<close> has its value in
  \<^verbatim>\<open>cur_domain()\<close> and \<^verbatim>\<open>has_support\<close> returns \<^verbatim>\<open>False\<close>.
\<close>

theorem has_support_short_tuple_counterexample:
  "has_support ((!) [Variable_init ''x'' [PVal 1, PVal (2::int)],
       Variable_init ''y'' [PVal 1, PVal 2]])
     (add_calls (Constraint_init ''c'' [0, 1]) [[[PVal 1]]]) 0 (PVal 1) = Inl IndexError
   \<and> snd (add_satisfying_tuples (Constraint_init ''c'' [0, 1]) [[PVal (1::int)]]) = Done
   \<and> brute_force_support ((!) [Variable_init ''x'' [PVal 1, PVal (2::int)],
       Variable_init ''y'' [PVal 1, PVal 2]])
     (add_calls (Constraint_init ''c'' [0, 1]) [[[PVal 1]]]) 0 (PVal 1)
   \<and> has_support ((!) [fst (prune_value (Variable_init ''z'' [PVal (1::int), PVal 1]) (PVal 1))])
     (add_calls (Constraint_init ''d'' [0]) [[[PVal 1]]]) 0 (PVal 1) = Inr False
   \<and> brute_force_support
     ((!) [fst (prune_value (Variable_init ''z'' [PVal (1::int), PVal 1]) (PVal 1))])
     (add_calls (Constraint_init ''d'' [0]) [[[PVal 1]]]) 0 (PVal 1)"
  by (simp add: con_eval var_eval)

section \<open>Properties of CSP\<close>

subsection \<open>The loop of add_constraint\<close>

text \<open>
  The loop adds no key and removes none; it stops with the message at the first variable
  of the scope that is not a key; what it has appended before stays.
\<close>

lemma keys_update_present:
  "map_of d k = Some l \<Longrightarrow> fst ` set (AList.update k v d) = fst ` set d"
  using dom_update [of k v d] by (auto dest: map_of_SomeD intro: rev_image_eqI)

lemma index_scope_keys: "fst ` set (fst (index_scope c vs d)) = fst ` set d"
proof (induction vs arbitrary: d)
  case Nil
  then show ?case by simp
next
  case (Cons v vs)
  then show ?case
    by (cases "map_of d v") (simp_all add: keys_update_present)
qed

lemma index_scope_snd:
  "snd (index_scope c vs d) =
     (if \<forall>v\<in>set vs. v \<in> fst ` set d then Done else Printed UnknownVariables)"
proof (induction vs arbitrary: d)
  case Nil
  then show ?case by simp
next
  case (Cons v vs)
  show ?case
  proof (cases "map_of d v")
    case None
    then have "v \<notin> fst ` set d" by (simp add: map_of_eq_None_iff)
    with None show ?thesis by simp
  next
    case (Some l)
    then have "v \<in> fst ` set d" by (auto dest: map_of_SomeD intro: rev_image_eqI)
    with Some Cons.IH [of "AList.update v (l @ [c]) d"] show ?thesis
      by (simp add: keys_update_present)
  qed
qed

lemma index_scope_mono:
  "map_of d v = Some l \<Longrightarrow>
   \<exists>l'. map_of (fst (index_scope c vs d)) v = Some l' \<and> set l \<subseteq> set l'"
proof (induction vs arbitrary: d l)
  case Nil
  then show ?case by simp
next
  case (Cons w vs)
  show ?case
  proof (cases "map_of d w")
    case None
    with Cons.prems show ?thesis by simp
  next
    case (Some m)
    let ?d = "AList.update w (m @ [c]) d"
    from Cons.prems Some have "\<exists>l1. map_of ?d v = Some l1 \<and> set l \<subseteq> set l1"
      by (auto simp: update_conv')
    then obtain l1 where l1: "map_of ?d v = Some l1" "set l \<subseteq> set l1" by blast
    from Cons.IH [OF l1(1)] l1(2) Some show ?thesis by auto
  qed
qed

lemma index_scope_indexed:
  "snd (index_scope c vs d) = Done \<Longrightarrow> v \<in> set vs \<Longrightarrow>
   \<exists>l. map_of (fst (index_scope c vs d)) v = Some l \<and> c \<in> set l"
proof (induction vs arbitrary: d)
  case Nil
  then show ?case by simp
next
  case (Cons w vs)
  show ?case
  proof (cases "map_of d w")
    case None
    with Cons.prems show ?thesis by simp
  next
    case (Some m)
    let ?d = "AList.update w (m @ [c]) d"
    from Cons.prems Some have ok: "snd (index_scope c vs ?d) = Done" by simp
    show ?thesis
    proof (cases "v = w")
      case True
      have "map_of ?d w = Some (m @ [c])" by (simp add: update_conv')
      from index_scope_mono [OF this, of c vs] Some True show ?thesis by auto
    next
      case False
      with Cons.prems have "v \<in> set vs" by simp
      from Cons.IH [OF ok this] Some show ?thesis by simp
    qed
  qed
qed

lemma csp_ok_init_empty: "csp_ok \<lparr>csp_name = nm, vars = [], cons = [], vars_to_cons = []\<rparr>"
  by (simp add: csp_ok_def)

lemma csp_ok_add_var: "csp_ok s \<Longrightarrow> csp_ok (fst (add_var s obj))"
  using dom_update [of _ "[]" "vars_to_cons s"]
  by (cases obj) (auto simp: add_var_def csp_ok_def)

lemma csp_ok_foldl_add_var:
  "csp_ok s \<Longrightarrow> csp_ok (foldl (\<lambda>s v. fst (add_var s v)) s vs)"
  by (induction vs arbitrary: s) (simp_all add: csp_ok_add_var)

lemma csp_ok_CSP_init: "csp_ok (CSP_init nm vs)"
  unfolding CSP_init_def by (rule csp_ok_foldl_add_var [OF csp_ok_init_empty])

lemma csp_ok_add_constraint: "csp_ok s \<Longrightarrow> csp_ok (fst (add_constraint ch s obj))"
  by (cases obj) (simp_all add: add_constraint_def csp_ok_def Let_def index_scope_keys
      split: outcome.splits)

subsection \<open>A constraint over an unregistered variable\<close>

text \<open>
  C5, as the code has it. In a CSP whose variables are the keys of \<^verbatim>\<open>vars_to_cons\<close>
  (every CSP built by \<^verbatim>\<open>add_var\<close> and \<^verbatim>\<open>add_constraint\<close> is one),
  \<^verbatim>\<open>add_constraint(c)\<close> for a constraint whose scope holds a variable that is not
  registered raises nothing: it prints its \<open>UnknownVariables\<close> message and returns, as
  a call that did its work returns, and the constraint list is as it was. When every
  variable of the scope is registered the call prints nothing and appends \<open>c\<close> to the
  constraint list; and after a call that printed nothing, \<^verbatim>\<open>get_cons_with_var(v)\<close>
  holds \<open>c\<close> for every variable \<open>v\<close> of the scope. No call of \<^verbatim>\<open>add_constraint\<close>
  raises.
\<close>

theorem add_constraint_unknown_variable:
  assumes "csp_ok s"
  shows "((\<exists>v\<in>set (scope (ch c)). v \<notin> set (get_all_vars s)) \<longrightarrow>
        snd (add_constraint ch s (ConstraintObj c)) = Printed UnknownVariables \<and>
        get_all_cons (fst (add_constraint ch s (ConstraintObj c))) = get_all_cons s)
     \<and> ((\<forall>v\<in>set (scope (ch c)). v \<in> set (get_all_vars s)) \<longrightarrow>
        snd (add_constraint ch s (ConstraintObj c)) = Done \<and>
        get_all_cons (fst (add_constraint ch s (ConstraintObj c))) = get_all_cons s @ [c])
     \<and> (snd (add_constraint ch s (ConstraintObj c)) = Done \<longrightarrow>
        (\<forall>v\<in>set (scope (ch c)).
           \<exists>l. get_cons_with_var (fst (add_constraint ch s (ConstraintObj c))) v = Inr l \<and>
               c \<in> set l))
     \<and> \<not> raises (snd (add_constraint ch s obj))"
proof -
  let ?r = "index_scope c (scope (ch c)) (vars_to_cons s)"
  from assms have keys: "fst ` set (vars_to_cons s) = set (get_all_vars s)"
    by (simp add: csp_ok_def get_all_vars_def)
  have e: "snd ?r = (if \<forall>v\<in>set (scope (ch c)). v \<in> set (get_all_vars s) then Done
      else Printed UnknownVariables)"
    unfolding index_scope_snd keys ..
  have a: "snd (add_constraint ch s (ConstraintObj c)) = Printed UnknownVariables \<and>
      get_all_cons (fst (add_constraint ch s (ConstraintObj c))) = get_all_cons s"
    if "\<exists>v\<in>set (scope (ch c)). v \<notin> set (get_all_vars s)"
    using that e by (auto simp: add_constraint_def Let_def get_all_cons_def)
  have b: "snd (add_constraint ch s (ConstraintObj c)) = Done \<and>
      get_all_cons (fst (add_constraint ch s (ConstraintObj c))) = get_all_cons s @ [c]"
    if "\<forall>v\<in>set (scope (ch c)). v \<in> set (get_all_vars s)"
    using that e by (simp add: add_constraint_def Let_def get_all_cons_def)
  have d: "\<exists>l. get_cons_with_var (fst (add_constraint ch s (ConstraintObj c))) v = Inr l \<and> c \<in> set l"
    if ok: "snd (add_constraint ch s (ConstraintObj c)) = Done" and v: "v \<in> set (scope (ch c))"
    for v
  proof -
    from ok have r: "snd ?r = Done"
      by (simp add: add_constraint_def Let_def split: outcome.splits)
    from index_scope_indexed [OF r v] r show ?thesis
      by (auto simp: add_constraint_def Let_def get_cons_with_var_def dict_get_def)
  qed
  have f: "\<not> raises (snd (add_constraint ch s obj))"
  proof (cases obj)
    case (ConstraintObj k)
    have "snd (index_scope k (scope (ch k)) (vars_to_cons s)) = Done \<or>
        snd (index_scope k (scope (ch k)) (vars_to_cons s)) = Printed UnknownVariables"
      unfolding index_scope_snd by simp
    with ConstraintObj show ?thesis
      by (auto simp: add_constraint_def Let_def raises_def)
  qed (simp_all add: add_constraint_def raises_def)
  from a b d f show ?thesis by blast
qed

lemmas csp_eval = CSP_init_def add_var_def add_constraint_def Let_def dict_has_def dict_get_def
  get_all_cons_def get_all_vars_def get_cons_with_var_def Constraint_init_def csp_ok_def

theorem add_constraint_unknown_variable_witness:
  "snd (add_constraint ((!) [Constraint_init ''c'' [0, 1], Constraint_init ''d'' [0, 2] :: int constraint])
       (CSP_init ''p'' [VariableObj 0, VariableObj 1]) (ConstraintObj 1))
     = Printed UnknownVariables
   \<and> get_all_cons (fst (add_constraint ((!) [Constraint_init ''c'' [0, 1], Constraint_init ''d'' [0, 2] :: int constraint])
       (CSP_init ''p'' [VariableObj 0, VariableObj 1]) (ConstraintObj 1))) = []
   \<and> snd (add_constraint ((!) [Constraint_init ''c'' [0, 1], Constraint_init ''d'' [0, 2] :: int constraint])
       (CSP_init ''p'' [VariableObj 0, VariableObj 1]) (ConstraintObj 0)) = Done
   \<and> get_all_cons (fst (add_constraint ((!) [Constraint_init ''c'' [0, 1], Constraint_init ''d'' [0, 2] :: int constraint])
       (CSP_init ''p'' [VariableObj 0, VariableObj 1]) (ConstraintObj 0))) = [0]
   \<and> get_cons_with_var (fst (add_constraint ((!) [Constraint_init ''c'' [0, 1], Constraint_init ''d'' [0, 2] :: int constraint])
       (CSP_init ''p'' [VariableObj 0, VariableObj 1]) (ConstraintObj 0))) 0 = Inr [0]
   \<and> get_cons_with_var (fst (add_constraint ((!) [Constraint_init ''c'' [0, 1], Constraint_init ''d'' [0, 2] :: int constraint])
       (CSP_init ''p'' [VariableObj 0, VariableObj 1]) (ConstraintObj 0))) 1 = Inr [0]"
proof -
  let ?ch = "(!) [Constraint_init ''c'' [0, 1], Constraint_init ''d'' [0, 2] :: int constraint]"
  let ?s = "CSP_init ''p'' [VariableObj 0, VariableObj 1]"
  have ok: "csp_ok ?s" by (rule csp_ok_CSP_init)
  have vs: "get_all_vars ?s = [0, 1]" by (simp add: csp_eval)
  have h1: "\<exists>v\<in>set (scope (?ch 1)). v \<notin> set (get_all_vars ?s)"
    unfolding vs by (simp add: Constraint_init_def)
  have h0: "\<forall>v\<in>set (scope (?ch 0)). v \<in> set (get_all_vars ?s)"
    unfolding vs by (simp add: Constraint_init_def)
  from add_constraint_unknown_variable [OF ok, of ?ch 1] h1
  have a: "snd (add_constraint ?ch ?s (ConstraintObj 1)) = Printed UnknownVariables"
    "get_all_cons (fst (add_constraint ?ch ?s (ConstraintObj 1))) = get_all_cons ?s"
    by blast+
  from add_constraint_unknown_variable [OF ok, of ?ch 0] h0
  have b: "snd (add_constraint ?ch ?s (ConstraintObj 0)) = Done"
    "get_all_cons (fst (add_constraint ?ch ?s (ConstraintObj 0))) = get_all_cons ?s @ [0]"
    by blast+
  have e: "get_all_cons ?s = []" by (simp add: csp_eval)
  have g: "get_cons_with_var (fst (add_constraint ?ch ?s (ConstraintObj 0))) 0 = Inr [0]"
    "get_cons_with_var (fst (add_constraint ?ch ?s (ConstraintObj 0))) 1 = Inr [0]"
    by (simp_all add: csp_eval)
  from a(2) e have a2: "get_all_cons (fst (add_constraint ?ch ?s (ConstraintObj 1))) = []"
    by (rule trans)
  from b(2) have b2: "get_all_cons (fst (add_constraint ?ch ?s (ConstraintObj 0))) = [0]"
    unfolding e by (simp only: append_Nil)
  from a(1) a2 b(1) b2 g show ?thesis by blast
qed

text \<open>
  With the variables \<open>0\<close> and \<open>1\<close> registered, adding a constraint over \<open>0\<close> and
  \<open>2\<close> raises nothing: the message is printed and the call returns.
\<close>

theorem add_constraint_unknown_variable_counterexample:
  "snd (add_constraint ((!) [Constraint_init ''c'' [0, 1], Constraint_init ''d'' [0, 2] :: int constraint])
       (CSP_init ''p'' [VariableObj 0, VariableObj 1]) (ConstraintObj 1))
     = Printed UnknownVariables
   \<and> \<not> raises (snd (add_constraint
       ((!) [Constraint_init ''c'' [0, 1], Constraint_init ''d'' [0, 2] :: int constraint])
       (CSP_init ''p'' [VariableObj 0, VariableObj 1]) (ConstraintObj 1)))"
  by (simp add: csp_eval raises_def)

subsection \<open>The mapping under the calls that are accepted\<close>

text \<open>
  \<^verbatim>\<open>add_var\<close>, accepted or refused, and an \<^verbatim>\<open>add_constraint\<close> that printed nothing
  keep the mapping in agreement with the constraint list.
\<close>

lemma index_scope_entry:
  "\<forall>w\<in>set vs. map_of d w \<noteq> None \<Longrightarrow>
   entry (fst (index_scope c vs d)) v = entry d v @ replicate (count_list vs v) c"
proof (induction vs arbitrary: d)
  case Nil
  then show ?case by simp
next
  case (Cons w vs)
  from Cons.prems obtain l where l: "map_of d w = Some l" by auto
  let ?d = "AList.update w (l @ [c]) d"
  from Cons.prems have "\<forall>u\<in>set vs. map_of ?d u \<noteq> None"
    by (simp add: update_conv')
  from Cons.IH [OF this] l show ?case
    by (auto simp: entry_def update_conv' replicate_app_Cons_same)
qed

lemma cons_indexed_empty:
  "cons_indexed ch \<lparr>csp_name = nm, vars = [], cons = [], vars_to_cons = []\<rparr>"
  by (simp add: cons_indexed_def)

lemma cons_indexed_add_var:
  assumes "csp_ok s" "cons_indexed ch s"
  shows "cons_indexed ch (fst (add_var s obj))"
proof (cases obj)
  case (VariableObj v)
  show ?thesis
  proof (cases "dict_has (vars_to_cons s) v")
    case True
    with VariableObj assms(2) show ?thesis by (simp add: add_var_def)
  next
    case False
    with assms(1) have new: "v \<notin> set (vars s)"
      by (simp add: csp_ok_def dict_has_def map_of_eq_None_iff)
    from assms(2) have sub: "\<forall>c\<in>set (cons s). set (scope (ch c)) \<subseteq> set (vars s)"
      and idx: "\<forall>u\<in>set (vars s).
        set (entry (vars_to_cons s) u) = {c \<in> set (cons s). u \<in> set (scope (ch c))}"
      by (simp_all add: cons_indexed_def)
    from sub new have none: "{c \<in> set (cons s). v \<in> set (scope (ch c))} = {}" by blast
    from False VariableObj have s': "fst (add_var s obj) =
        s\<lparr>vars := vars s @ [v], vars_to_cons := AList.update v [] (vars_to_cons s)\<rparr>"
      by (simp add: add_var_def)
    have e: "entry (AList.update v [] (vars_to_cons s)) u =
        (if u = v then [] else entry (vars_to_cons s) u)" for u
      by (simp add: entry_def update_conv')
    show ?thesis
      unfolding s' cons_indexed_def using idx sub none new
      by (auto simp: e)
  qed
next
  case (ConstraintObj c)
  with assms(2) show ?thesis by (simp add: add_var_def)
next
  case OtherObj
  with assms(2) show ?thesis by (simp add: add_var_def)
qed

lemma cons_indexed_add_constraint:
  assumes "csp_ok s" "cons_indexed ch s" "snd (add_constraint ch s obj) = Done"
  shows "cons_indexed ch (fst (add_constraint ch s obj))"
proof (cases obj)
  case (ConstraintObj c)
  let ?r = "index_scope c (scope (ch c)) (vars_to_cons s)"
  from assms(3) ConstraintObj have r: "snd ?r = Done"
    by (simp add: add_constraint_def Let_def split: outcome.splits)
  with ConstraintObj have s': "fst (add_constraint ch s obj) =
      s\<lparr>vars_to_cons := fst ?r, cons := cons s @ [c]\<rparr>"
    by (simp add: add_constraint_def Let_def)
  from r have reg: "\<forall>w\<in>set (scope (ch c)). w \<in> fst ` set (vars_to_cons s)"
    unfolding index_scope_snd by (simp split: if_splits)
  then have "\<forall>w\<in>set (scope (ch c)). map_of (vars_to_cons s) w \<noteq> None"
    by (simp add: map_of_eq_None_iff)
  then have e: "entry (fst ?r) v =
      entry (vars_to_cons s) v @ replicate (count_list (scope (ch c)) v) c" for v
    by (rule index_scope_entry)
  have rep: "set (replicate (count_list (scope (ch c)) v) c) =
      (if v \<in> set (scope (ch c)) then {c} else {})" for v
    by (simp add: count_list_0_iff)
  from assms(1) reg have sub': "set (scope (ch c)) \<subseteq> set (vars s)"
    by (auto simp: csp_ok_def)
  from assms(2) have sub: "\<forall>c\<in>set (cons s). set (scope (ch c)) \<subseteq> set (vars s)"
    and idx: "\<forall>u\<in>set (vars s).
      set (entry (vars_to_cons s) u) = {c \<in> set (cons s). u \<in> set (scope (ch c))}"
    by (simp_all add: cons_indexed_def)
  show ?thesis
    unfolding s' cons_indexed_def using idx sub sub'
    by (auto simp: e rep)
next
  case (VariableObj v)
  with assms(3) show ?thesis by (simp add: add_constraint_def)
next
  case OtherObj
  with assms(3) show ?thesis by (simp add: add_constraint_def)
qed

subsection \<open>What a rejected constraint leaves behind\<close>

text \<open>
  C6. The mapping from variables to constraints is meant to hold, for each variable,
  the constraints of the constraint list whose scope contains it. \<^verbatim>\<open>add_constraint\<close>
  tests each variable of the scope inside the loop that appends: for a CSP with the one
  variable \<open>0\<close> and a constraint over the variables \<open>0\<close> and \<open>1\<close>, the call is
  rejected at the variable \<open>1\<close>, the constraint list stays empty, and
  \<^verbatim>\<open>get_cons_with_var\<close> of the variable \<open>0\<close> returns the rejected constraint.
  (Under accepted calls the agreement is kept: \<open>cons_indexed_add_var\<close> and
  \<open>cons_indexed_add_constraint\<close> above.)
\<close>

theorem add_constraint_rejected_residue:
  "snd (add_constraint ((!) [Constraint_init ''c'' [0, 1] :: int constraint])
       (CSP_init ''p'' [VariableObj 0]) (ConstraintObj 0)) = Printed UnknownVariables
   \<and> get_all_cons (fst (add_constraint ((!) [Constraint_init ''c'' [0, 1] :: int constraint])
       (CSP_init ''p'' [VariableObj 0]) (ConstraintObj 0))) = []
   \<and> get_cons_with_var (fst (add_constraint ((!) [Constraint_init ''c'' [0, 1] :: int constraint])
       (CSP_init ''p'' [VariableObj 0]) (ConstraintObj 0))) 0 = Inr [0]"
  by (simp add: csp_eval)

end
